theory Spec2Isabelle
  imports Complex_Main "HOL-Library.Word"
begin

unbundle bit_operations_syntax

section \<open>Byte buffers\<close>

text \<open>
  A \<^verbatim>\<open>Uint8Array\<close> (or Node \<^verbatim>\<open>Buffer\<close>) is a list of 8-bit words.  JavaScript numbers
  that hold byte values, offsets and counts are natural numbers; differences of raw
  coordinates and running totals are integers.
\<close>

type_synonym byte = "8 word"

definition u8at :: "byte list \<Rightarrow> nat \<Rightarrow> nat" where
  \<comment> \<open>\<^verbatim>\<open>data[i]\<close> read as a number, for an index inside the buffer\<close>
  "u8at data i = unat (data ! i)"

section \<open>Frame scanner (viewer/film-parser.ts)\<close>

record ParsedFrame =
  index :: nat
  offset :: nat
  chunkIndex :: nat
  tick :: nat
  byte5 :: nat
  byte6 :: nat
  byte7 :: nat
  byte8 :: nat
  playerIndex :: nat
  baseType :: nat
  formatByte :: nat
  dataBytes :: "nat list"
  frameTypeHex :: string
  subtypeHex :: string
  isPositionFrame :: bool
  hasPlayer :: bool
  coord1 :: "nat option"
  coord2 :: "nat option"

definition markerAt :: "byte list \<Rightarrow> nat \<Rightarrow> bool" where
  \<comment> \<open>the test of \<^verbatim>\<open>findMarkers\<close>: bytes A0 7B 42 at i, i+1, i+2\<close>
  "markerAt data i \<longleftrightarrow>
     data ! i = 0xa0 \<and> data ! (i + 1) = 0x7b \<and> data ! (i + 2) = 0x42"

definition findMarkers :: "byte list \<Rightarrow> nat list" where
  \<comment> \<open>\<^verbatim>\<open>for (i = 0; i < data.length - 2; i++) if (...) positions.push(i)\<close>;
      for a buffer shorter than 2 bytes the bound is negative in the source and 0 here:
      the loop body never runs either way\<close>
  "findMarkers data = filter (markerAt data) [0..<length data - 2]"

definition hexDigit :: "nat \<Rightarrow> char" where
  "hexDigit d = (''0123456789abcdef'') ! d"

fun toStringHex :: "nat \<Rightarrow> string" where
  "toStringHex n = (if n < 16 then [hexDigit n] else toStringHex (n div 16) @ [hexDigit (n mod 16)])"

definition padStart2 :: "string \<Rightarrow> string" where
  "padStart2 s = replicate (2 - length s) (CHR ''0'') @ s"

definition toHex2 :: "nat \<Rightarrow> string" where
  "toHex2 n = padStart2 (toStringHex n)"

fun getChunkIndex_from :: "nat \<Rightarrow> nat list \<Rightarrow> nat \<Rightarrow> nat" where
  \<comment> \<open>the downward loop, \<^verbatim>\<open>k\<close> being \<^verbatim>\<open>i + 1\<close>\<close>
  "getChunkIndex_from off chunkOffsets 0 = 0"
| "getChunkIndex_from off chunkOffsets (Suc i) =
     (if off \<ge> chunkOffsets ! i then i else getChunkIndex_from off chunkOffsets i)"

definition getChunkIndex :: "nat \<Rightarrow> nat list \<Rightarrow> nat" where
  "getChunkIndex off chunkOffsets = getChunkIndex_from off chunkOffsets (length chunkOffsets)"

definition frameDataBytes :: "byte list \<Rightarrow> nat \<Rightarrow> nat list" where
  \<comment> \<open>\<^verbatim>\<open>dataBytes.push(pos + 10 + d < data.length ? data[pos + 10 + d] : 0)\<close> for d = 0..9\<close>
  "frameDataBytes data pos =
     map (\<lambda>d. if pos + 10 + d < length data then u8at data (pos + 10 + d) else 0) [0..<10]"

definition makeFrame :: "byte list \<Rightarrow> nat list \<Rightarrow> nat \<Rightarrow> nat \<Rightarrow> ParsedFrame" where
  \<comment> \<open>the body of the loop of \<^verbatim>\<open>parseFrames\<close> after its length guard;
      \<^verbatim>\<open>n\<close> is \<^verbatim>\<open>frames.length\<close> at the push\<close>
  "makeFrame data chunkOffsets n pos =
     (let tick = push_bit 8 (u8at data (pos + 3)) OR u8at data (pos + 4);
          byte5 = u8at data (pos + 5);
          byte6 = u8at data (pos + 6);
          byte7 = u8at data (pos + 7);
          byte8 = u8at data (pos + 8);
          formatByte = u8at data (pos + 9);
          playerIndex = drop_bit 5 byte6 AND 0x07;
          baseType = byte6 AND 0x1f;
          dataBytes = frameDataBytes data pos;
          d0HiNib = drop_bit 4 (dataBytes ! 0);
          isPositionFrame = (byte5 = 0x40 \<and> baseType = 0x09 \<and> d0HiNib = 4);
          hasPlayer = (byte5 = 0x40 \<and> (baseType = 0x09 \<or> baseType = 0x08))
      in \<lparr> index = n,
           offset = pos,
           chunkIndex = getChunkIndex pos chunkOffsets,
           tick = tick,
           byte5 = byte5,
           byte6 = byte6,
           byte7 = byte7,
           byte8 = byte8,
           playerIndex = playerIndex,
           baseType = baseType,
           formatByte = formatByte,
           dataBytes = dataBytes,
           frameTypeHex = toHex2 byte5 @ toHex2 byte6 @ toHex2 byte7 @ toHex2 byte8,
           subtypeHex = toHex2 byte7 @ toHex2 byte8,
           isPositionFrame = isPositionFrame,
           hasPlayer = hasPlayer,
           coord1 = (if isPositionFrame then Some (dataBytes ! 0 * 256 + dataBytes ! 1) else None),
           coord2 = (if isPositionFrame
                     then Some (push_bit 8 (dataBytes ! 2 AND 0x0f) OR dataBytes ! 3) else None) \<rparr>)"

definition parseFrames_step :: "byte list \<Rightarrow> nat list \<Rightarrow> ParsedFrame list \<Rightarrow> nat \<Rightarrow> ParsedFrame list" where
  \<comment> \<open>one iteration: \<^verbatim>\<open>if (pos + 20 > data.length) continue;\<close> then the push\<close>
  "parseFrames_step data chunkOffsets frames pos =
     (if pos + 20 > length data then frames
      else frames @ [makeFrame data chunkOffsets (length frames) pos])"

definition parseFrames :: "byte list \<Rightarrow> nat list \<Rightarrow> ParsedFrame list" where
  "parseFrames data chunkOffsets = foldl (parseFrames_step data chunkOffsets) [] (findMarkers data)"

definition frameReads :: "nat \<Rightarrow> nat list" where
  \<comment> \<open>the buffer indices the loop body reads for the marker at \<^verbatim>\<open>pos\<close>:
      \<^verbatim>\<open>pos + 3\<close> .. \<^verbatim>\<open>pos + 9\<close> for the header and \<^verbatim>\<open>pos + 10 + d\<close>, d = 0..9, for the data\<close>
  "frameReads pos = [pos + 3, pos + 4, pos + 5, pos + 6, pos + 7, pos + 8, pos + 9]
                    @ map (\<lambda>d. pos + 10 + d) [0..<10]"

definition spansOverlap :: "ParsedFrame \<Rightarrow> ParsedFrame \<Rightarrow> bool" where
  \<comment> \<open>the 20-byte spans [offset, offset + 19] of two frames share a byte\<close>
  "spansOverlap f g \<longleftrightarrow> offset f \<le> offset g + 19 \<and> offset g \<le> offset f + 19"

fun spansDisjoint :: "ParsedFrame list \<Rightarrow> bool" where
  "spansDisjoint [] = True"
| "spansDisjoint (f # fs) = (list_all (\<lambda>g. \<not> spansOverlap f g) fs \<and> spansDisjoint fs)"

subsection \<open>Point lookup\<close>

definition inSpan :: "int \<Rightarrow> ParsedFrame \<Rightarrow> bool" where
  \<comment> \<open>the accepting case of the search: neither \<^verbatim>\<open>offset < start\<close> nor \<^verbatim>\<open>offset > end\<close>\<close>
  "inSpan off f \<longleftrightarrow> int (offset f) \<le> off \<and> off \<le> int (offset f) + 19"

datatype js_error = TypeError | RangeError | ZlibError

partial_function (option) frameAtOffset_loop ::
  "int \<Rightarrow> ParsedFrame list \<Rightarrow> int \<Rightarrow> int \<Rightarrow> (js_error + nat option) option" where
  "frameAtOffset_loop off frames lo hi =
     (if lo \<le> hi then
        (let mid = ((lo + hi) mod 2 ^ 32) div 2
         in if mid < 0 \<or> mid \<ge> int (length frames) then Some (Inl TypeError)
            else
              (let start = int (offset (frames ! nat mid));
                   end = start + 19
               in if off < start then frameAtOffset_loop off frames lo (mid - 1)
                  else if off > end then frameAtOffset_loop off frames (mid + 1) hi
                  else Some (Inr (Some (nat mid)))))
      else Some (Inr None))"

definition frameAtOffset :: "int \<Rightarrow> ParsedFrame list \<Rightarrow> (js_error + nat option) option" where
  \<comment> \<open>\<^verbatim>\<open>lo = 0\<close>, \<^verbatim>\<open>hi = frames.length - 1\<close>; \<^verbatim>\<open>(lo + hi) >>> 1\<close> converts the sum to an
      unsigned 32-bit integer before halving; reading \<^verbatim>\<open>.offset\<close> of a missing element
      throws; the outer \<open>None\<close> stands for a loop that never returns\<close>
  "frameAtOffset off frames = frameAtOffset_loop off frames 0 (int (length frames) - 1)"

section \<open>Position-channel reconstruction (cli/motion-extractor.ts)\<close>

record MotionPoint =
  frame :: nat
  cumCoord1 :: int
  cumCoord2 :: int
  raw1 :: int
  raw2 :: int

definition getPlayerIndex :: "nat \<Rightarrow> nat" where
  "getPlayerIndex frameTypeByte1 = drop_bit 5 frameTypeByte1 AND 0x07"

definition getBaseType :: "nat \<Rightarrow> nat" where
  "getBaseType frameTypeByte1 = frameTypeByte1 AND 0x1f"

definition findMarkers_motion :: "byte list \<Rightarrow> nat list" where
  \<comment> \<open>the extractor's own scan: \<^verbatim>\<open>for (i = 0; i < buffer.length - 3; i++)\<close>\<close>
  "findMarkers_motion buffer = filter (markerAt buffer) [0..<length buffer - 3]"

text \<open>The local variables of \<^verbatim>\<open>extractBase09Position\<close> that live across iterations.\<close>

record base09_state =
  s_positions :: "MotionPoint list"
  s_prevC1 :: "int option"
  s_prevC2 :: "int option"
  s_cumCoord1 :: int
  s_cumCoord2 :: int
  s_frameCount :: nat

definition base09_init :: base09_state where
  "base09_init = \<lparr> s_positions = [], s_prevC1 = None, s_prevC2 = None,
                   s_cumCoord1 = 0, s_cumCoord2 = 0, s_frameCount = 0 \<rparr>"

definition DISCONTINUITY_THRESHOLD :: int where
  "DISCONTINUITY_THRESHOLD = 4000"

definition base09_delta1 :: "int \<Rightarrow> int \<Rightarrow> int" where
  \<comment> \<open>\<^verbatim>\<open>delta1\<close> after the 16-bit wraparound and the discontinuity filter\<close>
  "base09_delta1 prevC1 c1 =
     (let delta1 = c1 - prevC1;
          delta1 = (if delta1 > 32768 then delta1 - 65536 else delta1);
          delta1 = (if delta1 < - 32768 then delta1 + 65536 else delta1);
          delta1 = (if \<bar>delta1\<bar> > DISCONTINUITY_THRESHOLD then 0 else delta1)
      in delta1)"

definition base09_delta2 :: "int \<Rightarrow> int \<Rightarrow> int" where
  \<comment> \<open>\<^verbatim>\<open>delta2\<close> after the 12-bit wraparound and the discontinuity filter\<close>
  "base09_delta2 prevC2 c2 =
     (let delta2 = c2 - prevC2;
          delta2 = (if delta2 > 2048 then delta2 - 4096 else delta2);
          delta2 = (if delta2 < - 2048 then delta2 + 4096 else delta2);
          delta2 = (if \<bar>delta2\<bar> > DISCONTINUITY_THRESHOLD then 0 else delta2)
      in delta2)"

definition base09_sample :: "base09_state \<Rightarrow> int \<times> int \<Rightarrow> base09_state" where
  \<comment> \<open>lines 202 to 231: the accumulation for one accepted sample \<^verbatim>\<open>(c1, c2)\<close>\<close>
  "base09_sample st c =
     (let c1 = fst c; c2 = snd c;
          (cumCoord1, cumCoord2) =
            (case (s_prevC1 st, s_prevC2 st) of
               (Some prevC1, Some prevC2) \<Rightarrow>
                 (s_cumCoord1 st + base09_delta1 prevC1 c1, s_cumCoord2 st + base09_delta2 prevC2 c2)
             | _ \<Rightarrow> (s_cumCoord1 st, s_cumCoord2 st))
      in \<lparr> s_positions = s_positions st @
             [\<lparr> frame = s_frameCount st, cumCoord1 = cumCoord1, cumCoord2 = cumCoord2,
                raw1 = c1, raw2 = c2 \<rparr>],
           s_prevC1 = Some c1,
           s_prevC2 = Some c2,
           s_cumCoord1 = cumCoord1,
           s_cumCoord2 = cumCoord2,
           s_frameCount = s_frameCount st + 1 \<rparr>)"

definition base09_decode :: "byte list \<Rightarrow> nat \<Rightarrow> nat \<Rightarrow> (int \<times> int) option" where
  \<comment> \<open>lines 181 to 200: the filters of one marker; \<open>None\<close> is \<^verbatim>\<open>continue\<close>\<close>
  "base09_decode chunk player pos =
     (if pos + 13 \<ge> length chunk then None
      else
        let byte5 = u8at chunk (pos + 5);
            byte6 = u8at chunk (pos + 6)
        in if byte5 \<noteq> 0x40 then None
           else if getPlayerIndex byte6 \<noteq> player then None
           else if getBaseType byte6 \<noteq> 0x09 then None
           else
             let b0 = u8at chunk (pos + 10)
             in if drop_bit 4 b0 \<noteq> 4 then None
                else
                  let b1 = u8at chunk (pos + 11);
                      b2 = u8at chunk (pos + 12);
                      b3 = u8at chunk (pos + 13);
                      c1 = b0 * 256 + b1;
                      c2 = push_bit 8 (b2 AND 0x0f) OR b3
                  in Some (int c1, int c2))"

definition base09_marker :: "byte list \<Rightarrow> nat \<Rightarrow> base09_state \<Rightarrow> nat \<Rightarrow> base09_state" where
  "base09_marker chunk player st pos =
     (case base09_decode chunk player pos of
        None \<Rightarrow> st
      | Some c \<Rightarrow> base09_sample st c)"

definition base09_chunk :: "nat \<Rightarrow> base09_state \<Rightarrow> byte list \<Rightarrow> base09_state" where
  "base09_chunk player st chunk =
     foldl (base09_marker chunk player) st (findMarkers_motion chunk)"

definition extractBase09Position :: "byte list list \<Rightarrow> nat \<Rightarrow> MotionPoint list" where
  "extractBase09Position chunks player =
     s_positions (foldl (base09_chunk player) base09_init chunks)"

definition base09_replay :: "base09_state \<Rightarrow> (int \<times> int) list \<Rightarrow> base09_state" where
  \<comment> \<open>the accumulation run over a sequence of accepted samples\<close>
  "base09_replay st samples = foldl base09_sample st samples"

definition base09_samples :: "byte list list \<Rightarrow> nat \<Rightarrow> (int \<times> int) list" where
  \<comment> \<open>the accepted samples of all chunks, in scan order\<close>
  "base09_samples chunks player =
     concat (map (\<lambda>chunk. List.map_filter (base09_decode chunk player)
                            (findMarkers_motion chunk)) chunks)"

definition base09_resume :: "MotionPoint \<Rightarrow> base09_state" where
  \<comment> \<open>the loop state right after the sample that produced point \<open>p\<close>, output list empty\<close>
  "base09_resume p = \<lparr> s_positions = [], s_prevC1 = Some (raw1 p), s_prevC2 = Some (raw2 p),
                       s_cumCoord1 = cumCoord1 p, s_cumCoord2 = cumCoord2 p,
                       s_frameCount = frame p + 1 \<rparr>"

definition base09_restart :: "MotionPoint \<Rightarrow> base09_state" where
  \<comment> \<open>the state for replaying sample \<open>p\<close> itself: its raws as previous raws, its totals\<close>
  "base09_restart p = \<lparr> s_positions = [], s_prevC1 = Some (raw1 p), s_prevC2 = Some (raw2 p),
                        s_cumCoord1 = cumCoord1 p, s_cumCoord2 = cumCoord2 p,
                        s_frameCount = frame p \<rparr>"

section \<open>Octahedral direction decoder (viewer/octahedral-decode.ts)\<close>

text \<open>
  Direction vectors are triples \<^verbatim>\<open>{x, y, z}\<close>.  JavaScript's doubles are modelled by real
  numbers: the decoder divides small integers by 255, takes one square root and divides.
\<close>

type_synonym vec3 = "real \<times> real \<times> real"

definition aimVector :: "nat \<Rightarrow> nat \<Rightarrow> vec3" where
  \<comment> \<open>lines 312 to 339: the signed vector before normalisation\<close>
  "aimVector octantByte aimUint16 =
     (let octant = octantByte AND 0x07;
          u = drop_bit 8 aimUint16 AND 0xff;
          v = aimUint16 AND 0xff;
          fu = real u / 255;
          fv = real v / 255;
          a = fu;
          b = fv;
          c = max 0 (1 - a - b);
          sx = (if octant AND 1 \<noteq> 0 then - 1 else 1);
          sy = (if octant AND 2 \<noteq> 0 then - 1 else 1);
          sz = (if octant AND 4 \<noteq> 0 then - 1 else 1)
      in (sx * a, sy * b, sz * c))"

definition aimNormalize :: "vec3 \<Rightarrow> vec3" where
  \<comment> \<open>lines 342 to 351: the guarded normalisation\<close>
  "aimNormalize w =
     (case w of (x, y, z) \<Rightarrow>
        let len = sqrt (x * x + y * y + z * z)
        in if len < 1 / 10 ^ 10 then (0, 0, 1)
           else (x / len, y / len, z / len))"

definition decodeOctahedralAim :: "nat \<Rightarrow> nat \<Rightarrow> vec3" where
  "decodeOctahedralAim octantByte aimUint16 = aimNormalize (aimVector octantByte aimUint16)"

section \<open>Fire-event scanner (viewer/fire-scanner.ts)\<close>

record FireEvent =
  ev_offset :: nat
  ev_chunkIndex :: nat
  counter :: nat
  slot :: nat
  weaponId :: string
  weaponName :: string
  octantByte :: nat
  aimUint16 :: nat
  aimDirection :: vec3

record FireScanResult =
  events :: "FireEvent list"
  weaponCounts :: "string \<rightharpoonup> nat"

definition WEAPON_IDS :: "string \<rightharpoonup> string" where
  "WEAPON_IDS = map_of
     [(''48c19d2d42c9679f'', ''MA40 AR''),
      (''f408190f42c9679f'', ''Mk51 Sidekick''),
      (''2b1824d542c9679f'', ''BR75''),
      (''2fb21c8742c9679f'', ''M392 Bandit''),
      (''fd98554c42c9679f'', ''VK78 Commando''),
      (''0a1992bc42c9679f'', ''S7 Sniper''),
      (''b619d84a42c9679f'', ''CQS48 Bulldog''),
      (''71ab0a2c42c9679f'', ''M41 SPNKr''),
      (''b533957e42c9679f'', ''Needler''),
      (''7e53b3c642c9679f'', ''Pulse Carbine''),
      (''04e7f00b42c9679f'', ''Plasma Pistol''),
      (''c24e549e42c9679f'', ''Sentinel Beam''),
      (''3d34488542c9679f'', ''Heatwave''),
      (''f5ef3bdb42c9679f'', ''Stalker Rifle''),
      (''fcc6aa7642c9679f'', ''Shock Rifle''),
      (''7deb133f42c9679f'', ''Mangler''),
      (''cb30ec5e42c9679f'', ''Disruptor''),
      (''2b1d61e442c9679f'', ''Ravager''),
      (''7a11aeef42c9679f'', ''Skewer''),
      (''c2a6d5e042c9679f'', ''Cindershot''),
      (''1f6ae65542c9679f'', ''Hydra''),
      (''8afc085542c9679f'', ''Gravity Hammer''),
      (''1488d0bb42c9679f'', ''Energy Sword''),
      (''b6dbead842c9679f'', ''Frag Grenade''),
      (''c1e1bab042c9679f'', ''Plasma Grenade'')]"

definition WEAPON_SUFFIX :: string where
  "WEAPON_SUFFIX = ''42c9679f''"

definition endsWith :: "string \<Rightarrow> string \<Rightarrow> bool" where
  \<comment> \<open>\<^verbatim>\<open>s.endsWith(t)\<close>\<close>
  "endsWith s t \<longleftrightarrow> length t \<le> length s \<and> drop (length s - length t) s = t"

definition shifted :: "byte list \<Rightarrow> nat \<Rightarrow> nat" where
  \<comment> \<open>\<^verbatim>\<open>((data[pos] << 4) | (data[pos + 1] >> 4)) & 0xff\<close>, both indices inside the buffer\<close>
  "shifted data pos = (push_bit 4 (u8at data pos) OR drop_bit 4 (u8at data (pos + 1))) AND 0xff"

definition readShifted :: "byte list \<Rightarrow> nat \<Rightarrow> nat" where
  "readShifted data pos = (if pos + 1 \<ge> length data then 0 else shifted data pos)"

definition readShiftedHex :: "byte list \<Rightarrow> nat \<Rightarrow> nat \<Rightarrow> string" where
  "readShiftedHex data pos count = concat (map (\<lambda>i. toHex2 (readShifted data (pos + i))) [0..<count])"

definition readShiftedU16 :: "byte list \<Rightarrow> nat \<Rightarrow> nat" where
  "readShiftedU16 data pos =
     (let hi = readShifted data pos; lo = readShifted data (pos + 1) in push_bit 8 hi OR lo)"

definition fireEventAt :: "byte list \<Rightarrow> nat list \<Rightarrow> nat \<Rightarrow> FireEvent" where
  \<comment> \<open>the record pushed at lines 175 to 185 for an accepted offset \<^verbatim>\<open>i\<close>\<close>
  "fireEventAt data chunkOffsets i =
     (let counter = readShifted data (i + 4);
          slot = readShifted data (i + 5);
          weaponId = readShiftedHex data (i + 6) 8;
          octantByte = readShifted data (i + 14);
          aimUint16 = readShiftedU16 data (i + 15);
          weaponName = (case WEAPON_IDS weaponId of Some n \<Rightarrow> n | None \<Rightarrow> ''Unknown'');
          aimDirection = decodeOctahedralAim octantByte aimUint16
      in \<lparr> ev_offset = i,
           ev_chunkIndex = getChunkIndex i chunkOffsets,
           counter = counter,
           slot = slot,
           weaponId = weaponId,
           weaponName = weaponName,
           octantByte = octantByte,
           aimUint16 = aimUint16,
           aimDirection = aimDirection \<rparr>)"

definition scanFireEvents_step :: "byte list \<Rightarrow> nat list \<Rightarrow> FireScanResult \<Rightarrow> nat \<Rightarrow> FireScanResult" where
  \<comment> \<open>one iteration of the scan at offset \<^verbatim>\<open>i\<close>; every \<^verbatim>\<open>continue\<close> returns the state unchanged\<close>
  "scanFireEvents_step data chunkOffsets st i =
     (let b0 = shifted data i
      in if b0 \<noteq> 0x0d then st
         else
           let b1 = shifted data (i + 1)
           in if b1 \<noteq> 0x26 then st
              else
                let b3 = shifted data (i + 3)
                in if b3 AND 0xfc \<noteq> 0x40 then st
                   else if i + 17 \<ge> length data then st
                   else
                     let counter = readShifted data (i + 4);
                         slot = readShifted data (i + 5)
                     in if slot \<noteq> 0x01 \<and> slot \<noteq> 0x03 then st
                        else if counter mod 4 \<noteq> 0 then st
                        else
                          let weaponId = readShiftedHex data (i + 6) 8
                          in if \<not> endsWith weaponId WEAPON_SUFFIX then st
                             else
                               let ev = fireEventAt data chunkOffsets i;
                                   name = weaponName ev
                               in \<lparr> events = events st @ [ev],
                                    weaponCounts = (weaponCounts st)
                                      (name \<mapsto> (case weaponCounts st name of None \<Rightarrow> 0 | Some n \<Rightarrow> n) + 1) \<rparr>)"

definition scanFireEvents :: "byte list \<Rightarrow> nat list \<Rightarrow> FireScanResult" where
  \<comment> \<open>\<^verbatim>\<open>for (i = 0; i < data.length - 20; i++)\<close>\<close>
  "scanFireEvents data chunkOffsets =
     foldl (scanFireEvents_step data chunkOffsets) \<lparr> events = [], weaponCounts = Map.empty \<rparr>
       [0..<length data - 20]"

definition leadMatch :: "byte list \<Rightarrow> nat \<Rightarrow> bool" where
  \<comment> \<open>the lead pattern: shifted bytes 0d, 26 at \<^verbatim>\<open>i\<close>, \<^verbatim>\<open>i + 1\<close> and top six bits 0x40 at \<^verbatim>\<open>i + 3\<close>\<close>
  "leadMatch data i \<longleftrightarrow>
     shifted data i = 0x0d \<and> shifted data (i + 1) = 0x26 \<and> shifted data (i + 3) AND 0xfc = 0x40"

definition fireValid :: "byte list \<Rightarrow> nat \<Rightarrow> bool" where
  \<comment> \<open>the three downstream checks: slot, counter, weapon suffix\<close>
  "fireValid data i \<longleftrightarrow>
     (readShifted data (i + 5) = 0x01 \<or> readShifted data (i + 5) = 0x03)
     \<and> readShifted data (i + 4) mod 4 = 0
     \<and> endsWith (readShiftedHex data (i + 6) 8) WEAPON_SUFFIX"

definition fireAccept :: "byte list \<Rightarrow> nat \<Rightarrow> bool" where
  \<comment> \<open>all the tests of one iteration passed\<close>
  "fireAccept data i \<longleftrightarrow> leadMatch data i \<and> i + 17 < length data \<and> fireValid data i"

definition countOf :: "FireEvent list \<Rightarrow> string \<Rightarrow> nat option" where
  \<comment> \<open>the number of events with a given weapon name, absent when there is none\<close>
  "countOf evs name =
     (let n = length (filter (\<lambda>e. weaponName e = name) evs) in if n = 0 then None else Some n)"

text \<open>A 22-byte sample buffer: the nibble-shifted record
  \<^verbatim>\<open>0d 26 00 40 | 04 | 01 | 48 c1 9d 2d 42 c9 67 9. | 00 | ff 00\<close> at offset 0, the low
  nibble of the last weapon byte taken from the byte \<open>w\<close> at index 14.\<close>

definition fireSample :: "byte \<Rightarrow> byte list" where
  "fireSample w = [0x00, 0xd2, 0x60, 0x04, 0x00, 0x40, 0x14, 0x8c, 0x19, 0xd2, 0xd4,
                   0x2c, 0x96, 0x79, w, 0x0f, 0xf0, 0x00, 0x00, 0x00, 0x00, 0x00]"

section \<open>Structured-binary document decoder (cli/bond-parser.ts)\<close>

text \<open>
  A call either returns a value, throws, or (in the model only) runs out of the fuel that
  bounds the nesting of recursive calls.  Numbers are exact: the rounding of
  \<^verbatim>\<open>Number(bigint)\<close> above \<open>2 ^ 53\<close> is outside the model.  Floats are kept as their raw
  little-endian bytes, decoded strings as their bytes, and a blob's base64 text as the
  bytes it encodes.
\<close>

datatype 'a outcome = Ok 'a | Throw js_error | OutOfFuel

datatype 'v BondStruct = BondStruct
  (s_fields : "(string \<times> string \<times> 'v) list")
  (s_hasBaseClass : bool)

datatype 'v BondList = BondList
  (l_isSet : bool)
  (l_elemType : string)
  (l_count : nat)
  (l_items : "'v list option")
  (l_blobRef : "nat option")
  (l_data : "string option")

datatype 'v BondMap = BondMap
  (m_keyType : string)
  (m_valType : string)
  (m_count : nat)
  (m_entries : "('v \<times> 'v) list")

datatype BondValue =
    VBool bool
  | VUndefined
  | VNumber int
  | VFloat "byte list"
  | VDouble "byte list"
  | VString "byte list"
  | VWString "byte list"
  | VStruct "BondValue BondStruct"
  | VList "BondValue BondList"
  | VMap "BondValue BondMap"
  | VUnknownType nat

record Blob =
  blob_index :: nat
  blob_length :: nat
  blob_data :: "byte list"


subsection \<open>Reader\<close>

definition eof :: "byte list \<Rightarrow> nat \<Rightarrow> bool" where
  "eof buf pos \<longleftrightarrow> pos \<ge> length buf"


definition u8 :: "byte list \<Rightarrow> nat \<Rightarrow> nat option \<times> nat" where
  \<comment> \<open>\<^verbatim>\<open>this.buf[this.pos++]\<close>: \<open>None\<close> is \<^verbatim>\<open>undefined\<close>, read past the end\<close>
  "u8 buf pos = (if pos < length buf then Some (unat (buf ! pos)) else None, pos + 1)"

definition i8 :: "byte list \<Rightarrow> nat \<Rightarrow> (int \<times> nat) outcome" where
  "i8 buf pos = (if pos < length buf then Ok (sint (buf ! pos), pos + 1) else Throw RangeError)"

definition u16 :: "byte list \<Rightarrow> nat \<Rightarrow> (nat \<times> nat) outcome" where
  "u16 buf pos =
     (if pos + 2 \<le> length buf
      then Ok (unat (buf ! pos) + 256 * unat (buf ! (pos + 1)), pos + 2)
      else Throw RangeError)"


definition f32 :: "byte list \<Rightarrow> nat \<Rightarrow> (byte list \<times> nat) outcome" where
  "f32 buf pos =
     (if pos + 4 \<le> length buf then Ok (take 4 (drop pos buf), pos + 4) else Throw RangeError)"

definition f64 :: "byte list \<Rightarrow> nat \<Rightarrow> (byte list \<times> nat) outcome" where
  "f64 buf pos =
     (if pos + 8 \<le> length buf then Ok (take 8 (drop pos buf), pos + 8) else Throw RangeError)"

definition bytes :: "byte list \<Rightarrow> nat \<Rightarrow> nat \<Rightarrow> byte list \<times> nat" where
  \<comment> \<open>\<^verbatim>\<open>subarray\<close> clamps to the buffer, the position advances by \<^verbatim>\<open>n\<close> regardless\<close>
  "bytes buf pos n = (take n (drop pos buf), pos + n)"

fun leb128u_from :: "byte list \<Rightarrow> nat \<Rightarrow> nat \<Rightarrow> nat \<Rightarrow> nat \<times> nat" where
  \<comment> \<open>the loop of \<^verbatim>\<open>leb128u\<close> over the bytes not yet read: shift, result, bytes consumed\<close>
  "leb128u_from [] shift result n = (result, n)"
| "leb128u_from (b # bs) shift result n =
     (let byte = unat b;
          result = result OR push_bit shift (byte AND 0x7f)
      in if byte AND 0x80 = 0 then (result, n + 1)
         else leb128u_from bs (shift + 7) result (n + 1))"

definition leb128u :: "byte list \<Rightarrow> nat \<Rightarrow> nat \<times> nat" where
  "leb128u buf pos = (case leb128u_from (drop pos buf) 0 0 0 of (v, n) \<Rightarrow> (v, pos + n))"

definition leb128 :: "byte list \<Rightarrow> nat \<Rightarrow> int \<times> nat" where
  \<comment> \<open>\<^verbatim>\<open>(u >> 1n) ^ -(u & 1n)\<close>\<close>
  "leb128 buf pos =
     (case leb128u buf pos of (u, pos') \<Rightarrow> (drop_bit 1 (int u) XOR - (int u AND 1), pos'))"

subsection \<open>Names\<close>

fun showNat :: "nat \<Rightarrow> string" where
  "showNat n = (if n < 10 then [hexDigit n] else showNat (n div 10) @ [hexDigit (n mod 10)])"

definition TypeName :: "nat \<Rightarrow> string" where
  \<comment> \<open>\<^verbatim>\<open>TypeName[type] || `type_${type}`\<close>\<close>
  "TypeName t =
     (if t < 19
      then [''stop'', ''stop_base'', ''bool'', ''uint8'', ''uint16'', ''uint32'', ''uint64'',
            ''float'', ''double'', ''string'', ''struct'', ''list'', ''set'', ''map'',
            ''int8'', ''int16'', ''int32'', ''int64'', ''wstring''] ! t
      else ''type_'' @ showNat t)"

definition fieldKey :: "nat option \<Rightarrow> string" where
  \<comment> \<open>\<^verbatim>\<open>`field_${fieldId}`\<close>\<close>
  "fieldKey fieldId =
     ''field_'' @ (case fieldId of Some n \<Rightarrow> showNat n | None \<Rightarrow> ''undefined'')"

fun setField :: "string \<Rightarrow> 'a \<Rightarrow> (string \<times> 'a) list \<Rightarrow> (string \<times> 'a) list" where
  \<comment> \<open>\<^verbatim>\<open>fields[key] = ...\<close>: an existing key keeps its place\<close>
  "setField k v [] = [(k, v)]"
| "setField k v ((k', v') # r) = (if k = k' then (k, v) # r else (k', v') # setField k v r)"

definition isTextByte :: "byte \<Rightarrow> bool" where
  \<comment> \<open>\<^verbatim>\<open>(b >= 32 && b < 127) || b === 10 || b === 13 || b === 9 || b === 0\<close>\<close>
  "isTextByte w \<longleftrightarrow>
     (let b = unat w in (b \<ge> 32 \<and> b < 127) \<or> b = 10 \<or> b = 13 \<or> b = 9 \<or> b = 0)"

definition textOf :: "byte list \<Rightarrow> string" where
  \<comment> \<open>\<^verbatim>\<open>bytes.toString('utf8').replace(/\0/g, '')\<close>, for bytes that passed \<open>isTextByte\<close>\<close>
  "textOf bs = map (\<lambda>w. char_of (unat w)) (filter (\<lambda>w. w \<noteq> 0) bs)"

definition listHeader :: "byte list \<Rightarrow> nat \<Rightarrow> nat \<times> nat \<times> nat" where
  \<comment> \<open>lines 257 to 262: element type, count and the position after them\<close>
  "listHeader buf pos =
     (case u8 buf pos of (tcv, pos1) \<Rightarrow>
        let tc = (case tcv of Some b \<Rightarrow> b | None \<Rightarrow> 0);
            elemType = tc AND 0x1f;
            count = drop_bit 5 tc
        in if count = 0 then (case leb128u buf pos1 of (c, pos2) \<Rightarrow> (elemType, c, pos2))
           else (elemType, count - 1, pos1))"

subsection \<open>Values\<close>

text \<open>
  The unpacker's state is the reader position and the blob table.  \<^verbatim>\<open>readValue\<close>,
  \<^verbatim>\<open>readStruct\<close>, \<^verbatim>\<open>readList\<close> and \<^verbatim>\<open>readMap\<close> call each other; the model ties the knot
  with fuel: \<open>readValue (Suc n)\<close> reads nested values with \<open>readValue n\<close>, passed to the loops
  as the parameter \<open>rv\<close>.  The loop over struct fields also counts its iterations in fuel;
  the loops over list items and map entries run \<^verbatim>\<open>count\<close> times.
\<close>

type_synonym ustate = "nat \<times> Blob list"

type_synonym reader = "nat \<Rightarrow> ustate \<Rightarrow> (BondValue \<times> ustate) outcome"

definition readFieldId :: "byte list \<Rightarrow> nat \<Rightarrow> nat \<Rightarrow> (nat option \<times> nat) outcome" where
  \<comment> \<open>\<^verbatim>\<open>if (fieldId === 6) fieldId = u8(); else if (fieldId === 7) fieldId = u16();\<close>\<close>
  "readFieldId buf fieldId pos =
     (if fieldId = 6 then Ok (u8 buf pos)
      else if fieldId = 7
        then (case u16 buf pos of Ok (v, p) \<Rightarrow> Ok (Some v, p)
              | Throw e \<Rightarrow> Throw e | OutOfFuel \<Rightarrow> OutOfFuel)
      else Ok (Some fieldId, pos))"

fun readStruct_loop :: "reader \<Rightarrow> nat \<Rightarrow> byte list \<Rightarrow> nat \<Rightarrow> nat
        \<Rightarrow> (string \<times> string \<times> BondValue) list \<Rightarrow> bool
        \<Rightarrow> ustate \<Rightarrow> (BondValue BondStruct \<times> ustate) outcome" where
  "readStruct_loop rv 0 buf startPos maxLen flds hasBase st = OutOfFuel"
| "readStruct_loop rv (Suc n) buf startPos maxLen flds hasBase st =
     (if \<not> eof buf (fst st) \<and> int (fst st) - int startPos < int maxLen then
        let b = unat (buf ! fst st);
            pos1 = fst st + 1;
            ty = b AND 0x1f;
            fieldId = drop_bit 5 b
        in if ty = 0 then Ok (BondStruct flds hasBase, (pos1, snd st))
           else if ty = 1 then readStruct_loop rv n buf startPos maxLen flds True (pos1, snd st)
           else
             (case readFieldId buf fieldId pos1 of
                Throw e \<Rightarrow> Throw e
              | OutOfFuel \<Rightarrow> OutOfFuel
              | Ok (fid, pos2) \<Rightarrow>
                  (case rv ty (pos2, snd st) of
                     Throw e \<Rightarrow> Throw e
                   | OutOfFuel \<Rightarrow> OutOfFuel
                   | Ok (v, st') \<Rightarrow>
                       readStruct_loop rv n buf startPos maxLen
                         (setField (fieldKey fid) (TypeName ty, v) flds) hasBase st'))
      else Ok (BondStruct flds hasBase, st))"

fun readItems :: "(ustate \<Rightarrow> (BondValue \<times> ustate) outcome) \<Rightarrow> nat \<Rightarrow> BondValue list \<Rightarrow> ustate
        \<Rightarrow> (BondValue list \<times> ustate) outcome" where
  \<comment> \<open>\<^verbatim>\<open>for (i = 0; i < count; i++) items.push(this.readValue(elemType))\<close>\<close>
  "readItems rv 0 acc st = Ok (acc, st)"
| "readItems rv (Suc k) acc st =
     (case rv st of
        Throw e \<Rightarrow> Throw e
      | OutOfFuel \<Rightarrow> OutOfFuel
      | Ok (v, st') \<Rightarrow> readItems rv k (acc @ [v]) st')"

fun readEntries :: "(ustate \<Rightarrow> (BondValue \<times> ustate) outcome) \<Rightarrow> (ustate \<Rightarrow> (BondValue \<times> ustate) outcome)
        \<Rightarrow> nat \<Rightarrow> (BondValue \<times> BondValue) list \<Rightarrow> ustate
        \<Rightarrow> ((BondValue \<times> BondValue) list \<times> ustate) outcome" where
  "readEntries rk rvl 0 acc st = Ok (acc, st)"
| "readEntries rk rvl (Suc k) acc st =
     (case rk st of
        Throw e \<Rightarrow> Throw e
      | OutOfFuel \<Rightarrow> OutOfFuel
      | Ok (key, st1) \<Rightarrow>
          (case rvl st1 of
             Throw e \<Rightarrow> Throw e
           | OutOfFuel \<Rightarrow> OutOfFuel
           | Ok (v, st2) \<Rightarrow> readEntries rk rvl k (acc @ [(key, v)]) st2))"

definition readList :: "reader \<Rightarrow> byte list \<Rightarrow> bool \<Rightarrow> ustate \<Rightarrow> (BondValue \<times> ustate) outcome" where
  "readList rv buf isSet st =
     (case listHeader buf (fst st) of (elemType, count, pos2) \<Rightarrow>
        let typeName = TypeName elemType
        in if elemType = 3 \<or> elemType = 14 then
             (case bytes buf pos2 count of (bs, pos3) \<Rightarrow>
                let isText = (count > 0 \<and> count < 1000 \<and> list_all isTextByte bs)
                in if isText
                   then Ok (VList (BondList isSet typeName count None None (Some (textOf bs))),
                            (pos3, snd st))
                   else
                     let blobIndex = length (snd st)
                     in Ok (VList (BondList isSet typeName count None (Some blobIndex) None),
                            (pos3, snd st @ [\<lparr> blob_index = blobIndex, blob_length = count,
                                                blob_data = bs \<rparr>])))
           else
             (case readItems (rv elemType) count [] (pos2, snd st) of
                Throw e \<Rightarrow> Throw e
              | OutOfFuel \<Rightarrow> OutOfFuel
              | Ok (its, st') \<Rightarrow>
                  Ok (VList (BondList isSet typeName count (Some its) None None), st')))"

definition readMap :: "reader \<Rightarrow> byte list \<Rightarrow> ustate \<Rightarrow> (BondValue \<times> ustate) outcome" where
  "readMap rv buf st =
     (let kv = u8 buf (fst st);
          vv = u8 buf (snd kv);
          cv = leb128u buf (snd vv);
          keyType = (case fst kv of Some b \<Rightarrow> b | None \<Rightarrow> 0) AND 0x1f;
          valType = (case fst vv of Some b \<Rightarrow> b | None \<Rightarrow> 0) AND 0x1f;
          count = fst cv
      in (case readEntries (rv keyType) (rv valType) count [] (snd cv, snd st) of
            Throw e \<Rightarrow> Throw e
          | OutOfFuel \<Rightarrow> OutOfFuel
          | Ok (es, st') \<Rightarrow>
              Ok (VMap (BondMap (TypeName keyType) (TypeName valType) count es), st')))"

definition readScalar :: "byte list \<Rightarrow> nat \<Rightarrow> nat \<Rightarrow> (BondValue \<times> nat) outcome" where
  \<comment> \<open>the cases of \<^verbatim>\<open>readValue\<close> that read no nested value; any other tag is the default case\<close>
  "readScalar buf ty pos =
     (if ty = 2 then (case u8 buf pos of (v, pos') \<Rightarrow> Ok (VBool (v \<noteq> Some 0), pos'))
      else if ty = 3 then
        (case u8 buf pos of (v, pos') \<Rightarrow>
           Ok (case v of Some b \<Rightarrow> VNumber (int b) | None \<Rightarrow> VUndefined, pos'))
      else if ty = 14 then
        (case i8 buf pos of Ok (v, pos') \<Rightarrow> Ok (VNumber v, pos')
         | Throw e \<Rightarrow> Throw e | OutOfFuel \<Rightarrow> OutOfFuel)
      else if ty = 4 \<or> ty = 5 \<or> ty = 6 then
        (case leb128u buf pos of (v, pos') \<Rightarrow> Ok (VNumber (int v), pos'))
      else if ty = 15 \<or> ty = 16 \<or> ty = 17 then
        (case leb128 buf pos of (v, pos') \<Rightarrow> Ok (VNumber v, pos'))
      else if ty = 7 then
        (case f32 buf pos of Ok (v, pos') \<Rightarrow> Ok (VFloat v, pos')
         | Throw e \<Rightarrow> Throw e | OutOfFuel \<Rightarrow> OutOfFuel)
      else if ty = 8 then
        (case f64 buf pos of Ok (v, pos') \<Rightarrow> Ok (VDouble v, pos')
         | Throw e \<Rightarrow> Throw e | OutOfFuel \<Rightarrow> OutOfFuel)
      else if ty = 9 then
        (case leb128u buf pos of (len, pos1) \<Rightarrow>
           if len = 0 then Ok (VString [], pos1)
           else (case bytes buf pos1 len of (b, pos2) \<Rightarrow> Ok (VString b, pos2)))
      else if ty = 18 then
        (case leb128u buf pos of (len, pos1) \<Rightarrow>
           if len = 0 then Ok (VWString [], pos1)
           else (case bytes buf pos1 (len * 2) of (b, pos2) \<Rightarrow> Ok (VWString b, pos2)))
      else Ok (VUnknownType ty, pos))"

definition readValue_with :: "reader \<Rightarrow> nat \<Rightarrow> byte list \<Rightarrow> nat \<Rightarrow> ustate \<Rightarrow> (BondValue \<times> ustate) outcome" where
  \<comment> \<open>the \<^verbatim>\<open>switch\<close> of \<^verbatim>\<open>readValue\<close>, nested values read by \<open>rv\<close>\<close>
  "readValue_with rv n buf ty st =
     (if ty = 10 then
        (case leb128u buf (fst st) of (len, pos1) \<Rightarrow>
           let endPos = pos1 + len
           in (case readStruct_loop rv n buf pos1 len [] False (pos1, snd st) of
                 Throw e \<Rightarrow> Throw e
               | OutOfFuel \<Rightarrow> OutOfFuel
               | Ok (result, st') \<Rightarrow> Ok (VStruct result, (endPos, snd st'))))
      else if ty = 11 \<or> ty = 12 then readList rv buf (ty = 12) st
      else if ty = 13 then readMap rv buf st
      else (case readScalar buf ty (fst st) of
              Throw e \<Rightarrow> Throw e
            | OutOfFuel \<Rightarrow> OutOfFuel
            | Ok (v, pos') \<Rightarrow> Ok (v, (pos', snd st))))"

primrec readValue :: "nat \<Rightarrow> byte list \<Rightarrow> nat \<Rightarrow> ustate \<Rightarrow> (BondValue \<times> ustate) outcome" where
  "readValue 0 = (\<lambda>buf ty st. OutOfFuel)"
| "readValue (Suc n) = (\<lambda>buf ty st. readValue_with (readValue n buf) n buf ty st)"


subsection \<open>Documents\<close>















section \<open>Properties of the frame scanner\<close>

lemma offsets_foldl:
  "map offset (foldl (parseFrames_step data co) acc ms) =
     map offset acc @ filter (\<lambda>p. p + 20 \<le> length data) ms"
  by (induction ms arbitrary: acc) (auto simp: parseFrames_step_def makeFrame_def Let_def)

lemma parseFrames_offsets:
  "map offset (parseFrames data co) = filter (\<lambda>p. p + 20 \<le> length data) (findMarkers data)"
  by (simp add: parseFrames_def offsets_foldl)

lemma frames_foldl:
  "f \<in> set (foldl (parseFrames_step data co) acc ms) \<Longrightarrow>
     f \<in> set acc \<or> (\<exists>n p. p \<in> set ms \<and> p + 20 \<le> length data \<and> f = makeFrame data co n p)"
proof (induction ms arbitrary: acc)
  case Nil
  then show ?case by simp
next
  case (Cons m ms)
  have "f \<in> set (foldl (parseFrames_step data co) (parseFrames_step data co acc m) ms)"
    using Cons.prems by simp
  from Cons.IH[OF this]
  consider "f \<in> set (parseFrames_step data co acc m)"
    | "\<exists>n p. p \<in> set ms \<and> p + 20 \<le> length data \<and> f = makeFrame data co n p"
    by blast
  then show ?case
  proof cases
    case 1
    then have "f \<in> set acc \<or> (m + 20 \<le> length data \<and> f = makeFrame data co (length acc) m)"
      by (auto simp: parseFrames_step_def split: if_splits)
    then show ?thesis by auto
  next
    case 2
    then show ?thesis by auto
  qed
qed

lemma parseFrames_frame:
  assumes "f \<in> set (parseFrames data co)"
  obtains n p where "p \<in> set (findMarkers data)" "p + 20 \<le> length data"
    "f = makeFrame data co n p"
  using frames_foldl[of f data co "[]" "findMarkers data"] assms by (auto simp: parseFrames_def)

lemma makeFrame_offset: "offset (makeFrame data co n p) = p"
  by (simp add: makeFrame_def Let_def)

lemma makeFrame_dataBytes: "dataBytes (makeFrame data co n p) = frameDataBytes data p"
  by (simp add: makeFrame_def Let_def)

lemma spansDisjoint_nth:
  "spansDisjoint fs \<Longrightarrow> i < j \<Longrightarrow> j < length fs \<Longrightarrow> \<not> spansOverlap (fs ! i) (fs ! j)"
proof (induction fs arbitrary: i j)
  case Nil
  then show ?case by simp
next
  case (Cons f fs)
  show ?case
  proof (cases i)
    case 0
    then obtain j' where j: "j = Suc j'" using Cons.prems(2) by (cases j) auto
    then have "fs ! j' \<in> set fs" using Cons.prems(3) by simp
    then show ?thesis using Cons.prems(1) 0 j by (auto simp: list_all_iff)
  next
    case (Suc i')
    then obtain j' where j: "j = Suc j'" using Cons.prems(2) by (cases j) auto
    then show ?thesis using Cons.IH[of i' j'] Cons.prems Suc by simp
  qed
qed

lemma filter_eq_upt: "k < n \<Longrightarrow> filter (\<lambda>i. i = k) [0..<n] = [k]"
  by (induction n) (auto simp: filter_empty_conv less_Suc_eq)

lemma findMarkers_single:
  assumes "\<forall>i. i + 2 < length data \<longrightarrow> (markerAt data i \<longleftrightarrow> i = k)" "k + 2 < length data"
  shows "findMarkers data = [k]"
proof -
  have "filter (markerAt data) [0..<length data - 2] = filter (\<lambda>i. i = k) [0..<length data - 2]"
    using assms(1) by (intro filter_cong) auto
  also have "\<dots> = [k]"
    using assms(2) by (intro filter_eq_upt) simp
  finally show ?thesis by (simp add: findMarkers_def)
qed

lemma markerAt_iff_findMarkers:
  "i + 2 < length data \<Longrightarrow> markerAt data i \<longleftrightarrow> i \<in> set (findMarkers data)"
  by (auto simp: findMarkers_def)

text \<open>Concrete buffers used below: two markers three bytes apart; one marker at offset 100 in
  a buffer of 120 and of 115 bytes; two markers twenty bytes apart.\<close>

lemma markers_close:
  "findMarkers ([0xa0, 0x7b, 0x42, 0xa0, 0x7b, 0x42] @ replicate 17 0) = [0, 3]"
  by code_simp

lemma markers_120: "findMarkers (replicate 100 0 @ [0xa0, 0x7b, 0x42] @ replicate 17 0) = [100]"
  by code_simp

lemma markers_115: "findMarkers (replicate 100 0 @ [0xa0, 0x7b, 0x42] @ replicate 12 0) = [100]"
  by code_simp

lemma markers_stride:
  "findMarkers ([0xa0, 0x7b, 0x42] @ replicate 17 0 @ [0xa0, 0x7b, 0x42] @ replicate 17 0) = [0, 20]"
  by code_simp

text \<open>
  C2, as amended.  The frames returned by \<^verbatim>\<open>parseFrames\<close> are strictly ascending by offset,
  and each one starts at a marker whose 20-byte span lies inside the buffer.  (Nothing keeps
  two markers 20 bytes apart, so spans of different frames may share bytes.)
\<close>

theorem parseFrames_ascending:
  "sorted_wrt (<) (map offset (parseFrames data co)) \<and>
   list_all (\<lambda>f. markerAt data (offset f) \<and> offset f + 20 \<le> length data) (parseFrames data co)"
proof
  show "sorted_wrt (<) (map offset (parseFrames data co))"
    unfolding parseFrames_offsets findMarkers_def
    by (intro sorted_wrt_filter) simp
  show "list_all (\<lambda>f. markerAt data (offset f) \<and> offset f + 20 \<le> length data)
          (parseFrames data co)"
    unfolding list_all_iff
  proof
    fix f assume "f \<in> set (parseFrames data co)"
    then obtain n p where "p \<in> set (findMarkers data)" "p + 20 \<le> length data"
      "f = makeFrame data co n p"
      by (rule parseFrames_frame)
    then show "markerAt data (offset f) \<and> offset f + 20 \<le> length data"
      by (simp add: makeFrame_offset findMarkers_def)
  qed
qed

theorem parseFrames_ascending_witness:
  "map offset (parseFrames ([0xa0, 0x7b, 0x42, 0xa0, 0x7b, 0x42] @ replicate 17 0) []) = [0, 3] \<and>
   sorted_wrt (<) (map offset (parseFrames ([0xa0, 0x7b, 0x42, 0xa0, 0x7b, 0x42] @ replicate 17 0) []))"
proof -
  define d where "d = [0xa0 :: byte, 0x7b, 0x42, 0xa0, 0x7b, 0x42] @ replicate 17 0"
  have "map offset (parseFrames d []) = filter (\<lambda>p. p + 20 \<le> length d) [0, 3]"
    unfolding parseFrames_offsets d_def markers_close ..
  then have "map offset (parseFrames d []) = [0, 3]" by (simp add: d_def)
  then show ?thesis using parseFrames_ascending[of d "[]"] unfolding d_def by simp
qed

text \<open>
  C2, as stated, fails: a buffer with markers at offsets 0 and 3 and 23 bytes in all gives two
  frames whose spans [0, 19] and [3, 22] overlap.
\<close>

theorem parseFrames_overlap_counterexample:
  "\<not> spansDisjoint (parseFrames ([0xa0, 0x7b, 0x42, 0xa0, 0x7b, 0x42] @ replicate 17 0) [])"
proof
  define fs where "fs = parseFrames ([0xa0, 0x7b, 0x42, 0xa0, 0x7b, 0x42] @ replicate 17 0) []"
  assume "spansDisjoint (parseFrames ([0xa0, 0x7b, 0x42, 0xa0, 0x7b, 0x42] @ replicate 17 0) [])"
  then have d: "spansDisjoint fs" by (simp only: fs_def)
  have "map offset fs = filter (\<lambda>p. p + 20 \<le> 23) [0, 3]"
    unfolding fs_def parseFrames_offsets markers_close by simp
  then have offs: "map offset fs = [0, 3]" by simp
  have len: "length fs = 2" using arg_cong[OF offs, of length] by simp
  have "map offset fs ! 0 = 0" "map offset fs ! 1 = 3" by (simp_all add: offs)
  then have o: "offset (fs ! 0) = 0" "offset (fs ! 1) = 3" using len by simp_all
  have "\<not> spansOverlap (fs ! 0) (fs ! 1)"
    using spansDisjoint_nth[OF d, of 0 1] len by simp
  then show False using o by (simp add: spansOverlap_def)
qed

text \<open>
  C7.  A buffer whose only marker is at offset 100 gives exactly one frame, with offset 100,
  when it has at least 120 bytes, and no frame when it has 115 bytes.
\<close>

theorem parseFrames_single_marker:
  assumes "\<forall>i. i + 2 < length data \<longrightarrow> (markerAt data i \<longleftrightarrow> i = 100)"
  shows "(120 \<le> length data \<longrightarrow> (\<exists>f. parseFrames data co = [f] \<and> offset f = 100))
       \<and> (length data = 115 \<longrightarrow> parseFrames data co = [])"
proof (intro conjI impI)
  assume l: "120 \<le> length data"
  have "findMarkers data = [100]" using assms l by (intro findMarkers_single) auto
  then have "parseFrames data co = [makeFrame data co 0 100]"
    using l by (simp add: parseFrames_def parseFrames_step_def)
  then show "\<exists>f. parseFrames data co = [f] \<and> offset f = 100"
    by (simp add: makeFrame_offset)
next
  assume l: "length data = 115"
  have "findMarkers data = [100]" using assms l by (intro findMarkers_single) auto
  then show "parseFrames data co = []"
    using l by (simp add: parseFrames_def parseFrames_step_def)
qed

theorem parseFrames_single_marker_witness:
  "(\<exists>f. parseFrames (replicate 100 0 @ [0xa0, 0x7b, 0x42] @ replicate 17 0) [0] = [f]
        \<and> offset f = 100)
   \<and> parseFrames (replicate 100 0 @ [0xa0, 0x7b, 0x42] @ replicate 12 0) [0] = []"
proof
  define d where "d = replicate 100 0 @ [0xa0 :: byte, 0x7b, 0x42] @ replicate 17 0"
  have l: "length d = 120" by (simp add: d_def)
  have "findMarkers d = [100]" unfolding d_def by (rule markers_120)
  then have "\<forall>i. i + 2 < length d \<longrightarrow> (markerAt d i \<longleftrightarrow> i = 100)"
    by (simp add: markerAt_iff_findMarkers)
  from parseFrames_single_marker[OF this, of "[0]"] l
  show "\<exists>f. parseFrames (replicate 100 0 @ [0xa0, 0x7b, 0x42] @ replicate 17 0) [0] = [f]
            \<and> offset f = 100"
    unfolding d_def by simp
next
  define d where "d = replicate 100 0 @ [0xa0 :: byte, 0x7b, 0x42] @ replicate 12 0"
  have l: "length d = 115" by (simp add: d_def)
  have "findMarkers d = [100]" unfolding d_def by (rule markers_115)
  then have "\<forall>i. i + 2 < length d \<longrightarrow> (markerAt d i \<longleftrightarrow> i = 100)"
    by (simp add: markerAt_iff_findMarkers)
  from parseFrames_single_marker[OF this, of "[0]"] l
  show "parseFrames (replicate 100 0 @ [0xa0, 0x7b, 0x42] @ replicate 12 0) [0] = []"
    unfolding d_def by simp
qed

text \<open>
  C10.  For every frame that \<^verbatim>\<open>parseFrames\<close> emits, the span of 20 bytes from its offset
  lies inside the buffer, so every index the loop body reads (\<open>frameReads\<close>) is in bounds,
  the zero-padding alternative is never taken, and the ten data bytes are the buffer's bytes
  at offsets \<^verbatim>\<open>pos + 10\<close> .. \<^verbatim>\<open>pos + 19\<close>.
\<close>

theorem parseFrames_in_bounds:
  "\<forall>f \<in> set (parseFrames data co).
      offset f + 20 \<le> length data
    \<and> (\<forall>i \<in> set (frameReads (offset f)). i < length data)
    \<and> dataBytes f = map (\<lambda>d. u8at data (offset f + 10 + d)) [0..<10]"
proof
  fix f assume "f \<in> set (parseFrames data co)"
  then obtain n p where p: "p + 20 \<le> length data" "f = makeFrame data co n p"
    by (rule parseFrames_frame)
  have "\<forall>i \<in> set (frameReads p). i < length data"
    using p(1) by (auto simp: frameReads_def)
  moreover have "frameDataBytes data p = map (\<lambda>d. u8at data (p + 10 + d)) [0..<10]"
    unfolding frameDataBytes_def using p(1) by (intro map_cong) auto
  ultimately show "offset f + 20 \<le> length data
    \<and> (\<forall>i \<in> set (frameReads (offset f)). i < length data)
    \<and> dataBytes f = map (\<lambda>d. u8at data (offset f + 10 + d)) [0..<10]"
    using p by (simp add: makeFrame_offset makeFrame_dataBytes)
qed

theorem parseFrames_in_bounds_witness:
  "\<exists>f. parseFrames (replicate 100 0 @ [0xa0, 0x7b, 0x42] @ replicate 17 0) [0] = [f]
      \<and> offset f + 20 \<le> 120
      \<and> list_all (\<lambda>i. i < 120) (frameReads (offset f))
      \<and> dataBytes f = map (\<lambda>d. u8at (replicate 100 0 @ [0xa0, 0x7b, 0x42] @ replicate 17 0)
                                   (offset f + 10 + d)) [0..<10]"
proof -
  define d where "d = replicate 100 0 @ [0xa0 :: byte, 0x7b, 0x42] @ replicate 17 0"
  define f where "f = makeFrame d [0] 0 100"
  have l: "length d = 120" by (simp add: d_def)
  have "findMarkers d = [100]" unfolding d_def by (rule markers_120)
  then have pf: "parseFrames d [0] = [f]"
    by (simp add: parseFrames_def parseFrames_step_def l f_def)
  then have "f \<in> set (parseFrames d [0])" by simp
  with parseFrames_in_bounds[of d "[0]"]
  have "offset f + 20 \<le> length d
      \<and> (\<forall>i \<in> set (frameReads (offset f)). i < length d)
      \<and> dataBytes f = map (\<lambda>k. u8at d (offset f + 10 + k)) [0..<10]"
    by blast
  then have "parseFrames d [0] = [f] \<and> offset f + 20 \<le> 120
      \<and> list_all (\<lambda>i. i < 120) (frameReads (offset f))
      \<and> dataBytes f = map (\<lambda>k. u8at d (offset f + 10 + k)) [0..<10]"
    using pf l by (simp add: list_all_iff)
  then show ?thesis unfolding d_def by blast
qed

subsection \<open>Binary search\<close>

lemma frameAtOffset_loop_correct:
  assumes srt: "sorted_wrt (\<lambda>f g. offset f + 20 \<le> offset g) frames"
      and len: "length frames < 2 ^ 31"
  shows "nat (hi - lo + 1) = k \<Longrightarrow> 0 \<le> lo \<Longrightarrow> hi < int (length frames)
     \<Longrightarrow> (\<forall>i. int i < lo \<longrightarrow> i < length frames \<longrightarrow> int (offset (frames ! i)) + 19 < off)
     \<Longrightarrow> (\<forall>i. hi < int i \<longrightarrow> i < length frames \<longrightarrow> off < int (offset (frames ! i)))
     \<Longrightarrow> \<exists>r. frameAtOffset_loop off frames lo hi = Some (Inr r) \<and>
            (case r of Some i \<Rightarrow> i < length frames \<and> inSpan off (frames ! i)
                     | None \<Rightarrow> \<forall>i<length frames. \<not> inSpan off (frames ! i))"
proof (induction k arbitrary: lo hi rule: less_induct)
  case (less k)
  have mono: "\<And>i j. i < j \<Longrightarrow> j < length frames
                \<Longrightarrow> offset (frames ! i) + 20 \<le> offset (frames ! j)"
    using srt by (simp add: sorted_wrt_iff_nth_less)
  show ?case
  proof (cases "lo \<le> hi")
    case False
    have "\<forall>i<length frames. \<not> inSpan off (frames ! i)"
    proof (intro allI impI)
      fix i assume i: "i < length frames"
      from False have "int i < lo \<or> hi < int i" by linarith
      then show "\<not> inSpan off (frames ! i)"
        using less.prems(4,5) i by (auto simp: inSpan_def)
    qed
    moreover have "frameAtOffset_loop off frames lo hi = Some (Inr None)"
      using False by (subst frameAtOffset_loop.simps) simp
    ultimately show ?thesis by simp
  next
    case True
    define mid where "mid = (lo + hi) div 2"
    have sum: "0 \<le> lo + hi" "lo + hi < 2 ^ 32"
      using True less.prems(2,3) len by auto
    have midw: "((lo + hi) mod 2 ^ 32) div 2 = mid"
      using sum by (simp add: mid_def)
    have midr: "lo \<le> mid" "mid \<le> hi" "0 \<le> mid" "mid < int (length frames)"
      using True less.prems(2,3) by (auto simp: mid_def)
    define m where "m = nat mid"
    have m: "int m = mid" "m < length frames" using midr by (auto simp: m_def)
    define start where "start = int (offset (frames ! m))"
    have step: "frameAtOffset_loop off frames lo hi =
        (if off < start then frameAtOffset_loop off frames lo (mid - 1)
         else if off > start + 19 then frameAtOffset_loop off frames (mid + 1) hi
         else Some (Inr (Some m)))"
      apply (subst frameAtOffset_loop.simps)
      unfolding midw Let_def
      using True midr by (simp add: start_def m_def)
    consider (L) "off < start" | (R) "off > start + 19" | (H) "start \<le> off" "off \<le> start + 19"
      by linarith
    then show ?thesis
    proof cases
      case L
      have up: "\<forall>i. mid - 1 < int i \<longrightarrow> i < length frames \<longrightarrow> off < int (offset (frames ! i))"
      proof (intro allI impI)
        fix i assume a: "mid - 1 < int i" "i < length frames"
        then have "m \<le> i" using m by linarith
        then have "offset (frames ! m) \<le> offset (frames ! i)"
          using mono[of m i] a(2) by (cases "m = i") auto
        then show "off < int (offset (frames ! i))" using L by (simp add: start_def)
      qed
      have "nat (mid - 1 - lo + 1) < k" using less.prems(1) midr True by linarith
      from less.IH[OF this refl less.prems(2) _ less.prems(4) up]
      show ?thesis using step L midr by simp
    next
      case R
      have lowr: "\<forall>i. int i < mid + 1 \<longrightarrow> i < length frames
                    \<longrightarrow> int (offset (frames ! i)) + 19 < off"
      proof (intro allI impI)
        fix i assume a: "int i < mid + 1" "i < length frames"
        then have "i \<le> m" using m by linarith
        then have "offset (frames ! i) \<le> offset (frames ! m)"
          using mono[of i m] m(2) by (cases "m = i") auto
        then show "int (offset (frames ! i)) + 19 < off" using R by (simp add: start_def)
      qed
      have "nat (hi - (mid + 1) + 1) < k" using less.prems(1) midr True by linarith
      from less.IH[OF this refl _ less.prems(3) lowr less.prems(5)]
      show ?thesis using step R midr by simp
    next
      case H
      then have "frameAtOffset_loop off frames lo hi = Some (Inr (Some m))"
        using step by simp
      moreover have "inSpan off (frames ! m)" using H by (simp add: inSpan_def start_def)
      ultimately show ?thesis using m by simp
    qed
  qed
qed

lemma inSpan_unique:
  assumes srt: "sorted_wrt (\<lambda>f g. offset f + 20 \<le> offset g) frames"
    and "i < length frames" "j < length frames"
    and "inSpan off (frames ! i)" "inSpan off (frames ! j)"
  shows "i = j"
proof (rule ccontr)
  assume "i \<noteq> j"
  then consider "i < j" | "j < i" by linarith
  then show False
  proof cases
    case 1
    then have "offset (frames ! i) + 20 \<le> offset (frames ! j)"
      using srt assms(3) by (simp add: sorted_wrt_iff_nth_less)
    then show False using assms(4,5) by (simp add: inSpan_def)
  next
    case 2
    then have "offset (frames ! j) + 20 \<le> offset (frames ! i)"
      using srt assms(2) by (simp add: sorted_wrt_iff_nth_less)
    then show False using assms(4,5) by (simp add: inSpan_def)
  qed
qed

text \<open>
  C8.  On a frame list that is ascending by offset with non-overlapping 20-byte spans (each
  offset at least 20 above the one before; fewer than \<open>2 ^ 31\<close> frames, so that the unsigned
  32-bit midpoint is exact), \<^verbatim>\<open>frameAtOffset\<close> returns the index of the frame whose span
  contains the offset whenever there is one, and null when no span contains it.
\<close>

theorem frameAtOffset_correct:
  assumes srt: "sorted_wrt (\<lambda>f g. offset f + 20 \<le> offset g) frames"
      and len: "length frames < 2 ^ 31"
  shows "(\<forall>i. i < length frames \<and> inSpan off (frames ! i)
              \<longrightarrow> frameAtOffset off frames = Some (Inr (Some i)))
       \<and> ((\<forall>i<length frames. \<not> inSpan off (frames ! i))
              \<longrightarrow> frameAtOffset off frames = Some (Inr None))"
proof -
  obtain r where r: "frameAtOffset off frames = Some (Inr r)"
      "case r of Some i \<Rightarrow> i < length frames \<and> inSpan off (frames ! i)
               | None \<Rightarrow> \<forall>i<length frames. \<not> inSpan off (frames ! i)"
    using frameAtOffset_loop_correct[OF srt len refl, of 0 "int (length frames) - 1" off]
    unfolding frameAtOffset_def by auto
  show ?thesis
  proof (intro conjI allI impI)
    fix i assume a: "i < length frames \<and> inSpan off (frames ! i)"
    show "frameAtOffset off frames = Some (Inr (Some i))"
    proof (cases r)
      case None
      then show ?thesis using r a by auto
    next
      case (Some j)
      then have "j = i" using inSpan_unique[OF srt, of j i off] r a by auto
      then show ?thesis using r Some by simp
    qed
  next
    assume a: "\<forall>i<length frames. \<not> inSpan off (frames ! i)"
    show "frameAtOffset off frames = Some (Inr None)"
      using r a by (cases r) auto
  qed
qed

theorem frameAtOffset_correct_witness:
  "frameAtOffset 25
     (parseFrames ([0xa0, 0x7b, 0x42] @ replicate 17 0 @ [0xa0, 0x7b, 0x42] @ replicate 17 0) [])
     = Some (Inr (Some 1)) \<and>
   frameAtOffset 40
     (parseFrames ([0xa0, 0x7b, 0x42] @ replicate 17 0 @ [0xa0, 0x7b, 0x42] @ replicate 17 0) [])
     = Some (Inr None)"
proof -
  define fs where "fs = parseFrames
     ([0xa0, 0x7b, 0x42] @ replicate 17 0 @ [0xa0, 0x7b, 0x42] @ replicate 17 0) []"
  have "map offset fs = filter (\<lambda>p. p + 20 \<le> 40) [0, 20]"
    unfolding fs_def parseFrames_offsets markers_stride by simp
  then have offs: "map offset fs = [0, 20]" by simp
  have len: "length fs = 2" using arg_cong[OF offs, of length] by simp
  have "map offset fs ! 0 = 0" "map offset fs ! 1 = 20" by (simp_all add: offs)
  then have o: "offset (fs ! 0) = 0" "offset (fs ! 1) = 20" using len by simp_all
  have "sorted_wrt (\<lambda>a b. a + 20 \<le> b) (map offset fs)" by (simp add: offs)
  then have srt: "sorted_wrt (\<lambda>f g. offset f + 20 \<le> offset g) fs"
    by (simp add: sorted_wrt_map)
  have l31: "length fs < 2 ^ 31" by (simp add: len)
  have in1: "1 < length fs \<and> inSpan 25 (fs ! 1)" using o len by (simp add: inSpan_def)
  have no: "\<forall>i<length fs. \<not> inSpan 40 (fs ! i)"
    using o len by (auto simp: inSpan_def less_Suc_eq numeral_2_eq_2)
  from frameAtOffset_correct[OF srt l31, of 25] in1
  have a: "frameAtOffset 25 fs = Some (Inr (Some 1))" by blast
  from frameAtOffset_correct[OF srt l31, of 40] no
  have b: "frameAtOffset 40 fs = Some (Inr None)" by blast
  show ?thesis using a b unfolding fs_def by simp
qed

section \<open>Properties of the position accumulation\<close>

lemma marker_foldl:
  "foldl (base09_marker chunk pl) st ms = base09_replay st (List.map_filter (base09_decode chunk pl) ms)"
  by (induction ms arbitrary: st)
     (auto simp: base09_replay_def base09_marker_def List.map_filter_simps split: option.splits)

lemma replay_append: "base09_replay st (xs @ ys) = base09_replay (base09_replay st xs) ys"
  by (simp add: base09_replay_def)

lemma chunks_foldl:
  "foldl (base09_chunk pl) st chunks = base09_replay st (base09_samples chunks pl)"
  by (induction chunks arbitrary: st)
     (simp_all add: base09_samples_def base09_chunk_def marker_foldl replay_append base09_replay_def)

lemma extract_eq_replay:
  "extractBase09Position chunks pl = s_positions (base09_replay base09_init (base09_samples chunks pl))"
  by (simp add: extractBase09Position_def chunks_foldl)

lemma sample_positions:
  "s_positions (base09_sample st c) = s_positions st @ s_positions (base09_sample (st\<lparr>s_positions := []\<rparr>) c)"
  by (simp add: base09_sample_def Let_def split: prod.splits option.splits)

lemma sample_rest:
  "(base09_sample st c)\<lparr>s_positions := []\<rparr> = (base09_sample (st\<lparr>s_positions := ps\<rparr>) c)\<lparr>s_positions := []\<rparr>"
  by (simp add: base09_sample_def Let_def split: prod.splits option.splits)

lemma replay_positions:
  "s_positions (base09_replay st xs) = s_positions st @ s_positions (base09_replay (st\<lparr>s_positions := []\<rparr>) xs)
   \<and> (base09_replay st xs)\<lparr>s_positions := []\<rparr> = (base09_replay (st\<lparr>s_positions := []\<rparr>) xs)\<lparr>s_positions := []\<rparr>"
proof (induction xs rule: rev_induct)
  case Nil
  then show ?case by (simp add: base09_replay_def)
next
  case (snoc x xs)
  have s: "base09_replay st (xs @ [x]) = base09_sample (base09_replay st xs) x" for st
    by (simp add: base09_replay_def)
  show ?case
    unfolding s
    using snoc sample_positions[of "base09_replay st xs" x]
      sample_positions[of "base09_replay (st\<lparr>s_positions := []\<rparr>) xs" x]
      sample_rest[of "base09_replay st xs" x "[]"]
      sample_rest[of "base09_replay (st\<lparr>s_positions := []\<rparr>) xs" x "[]"]
    by (metis (no_types, lifting) append.assoc)
qed


lemma sample_resume:
  "(base09_sample st c)\<lparr>s_positions := []\<rparr> = base09_resume (last (s_positions (base09_sample st c)))"
  by (simp add: base09_sample_def base09_resume_def Let_def split: prod.splits option.splits)

lemma replay_resume:
  "xs \<noteq> [] \<Longrightarrow> (base09_replay st xs)\<lparr>s_positions := []\<rparr>
      = base09_resume (last (s_positions (base09_replay st xs)))"
proof (cases xs rule: rev_cases)
  case Nil
  assume "xs \<noteq> []"
  with Nil show ?thesis by simp
next
  case (snoc ys y)
  then show ?thesis by (simp add: base09_replay_def sample_resume)
qed

lemma sample_length: "length (s_positions (base09_sample st c)) = Suc (length (s_positions st))"
  by (simp add: base09_sample_def Let_def split: prod.splits option.splits)

lemma replay_length:
  "length (s_positions (base09_replay st xs)) = length (s_positions st) + length xs"
  by (induction xs rule: rev_induct) (simp_all add: base09_replay_def sample_length)

lemma sample_raws:
  "map (\<lambda>p. (raw1 p, raw2 p)) (s_positions (base09_sample st c))
     = map (\<lambda>p. (raw1 p, raw2 p)) (s_positions st) @ [c]"
  by (simp add: base09_sample_def Let_def split: prod.splits option.splits)

lemma replay_raws:
  "map (\<lambda>p. (raw1 p, raw2 p)) (s_positions (base09_replay st xs))
     = map (\<lambda>p. (raw1 p, raw2 p)) (s_positions st) @ xs"
  by (induction xs rule: rev_induct) (simp_all add: base09_replay_def sample_raws)

lemma delta_same: "base09_delta1 c c = 0" "base09_delta2 c c = 0"
  by (simp_all add: base09_delta1_def base09_delta2_def DISCONTINUITY_THRESHOLD_def)

lemma sample_restart:
  "base09_sample (base09_restart p) (raw1 p, raw2 p) = (base09_resume p)\<lparr>s_positions := [p]\<rparr>"
  by (simp add: base09_sample_def base09_restart_def base09_resume_def delta_same Let_def)

lemma replay_tail:
  assumes k: "k < length samples"
  shows "s_positions (base09_replay (base09_resume
            (s_positions (base09_replay base09_init samples) ! k)) (drop (Suc k) samples))
         = drop (Suc k) (s_positions (base09_replay base09_init samples))"
proof -
  define T where "T = take (Suc k) samples"
  define D where "D = drop (Suc k) samples"
  define P1 where "P1 = s_positions (base09_replay base09_init T)"
  have TD: "samples = T @ D" by (simp add: T_def D_def)
  have Tne: "T \<noteq> []" using k by (auto simp: T_def)
  have lenP1: "length P1 = Suc k"
    using k by (simp add: P1_def replay_length base09_init_def T_def)
  have "s_positions (base09_replay base09_init samples)
        = P1 @ s_positions (base09_replay ((base09_replay base09_init T)\<lparr>s_positions := []\<rparr>) D)"
    unfolding TD replay_append P1_def
    using replay_positions[of "base09_replay base09_init T" D] by simp
  then have pts: "s_positions (base09_replay base09_init samples)
        = P1 @ s_positions (base09_replay (base09_resume (last P1)) D)"
    using replay_resume[OF Tne, of base09_init] by (simp add: P1_def)
  have "P1 \<noteq> []" using lenP1 by auto
  then have "last P1 = P1 ! k" using lenP1 by (simp add: last_conv_nth)
  then have nth: "s_positions (base09_replay base09_init samples) ! k = last P1"
    using pts lenP1 by (simp add: nth_append)
  have "drop (Suc k) (s_positions (base09_replay base09_init samples))
        = s_positions (base09_replay (base09_resume (last P1)) D)"
    by (subst pts) (simp add: lenP1)
  then show ?thesis
    unfolding nth D_def[symmetric] by simp
qed

lemma replay_from:
  assumes k: "k < length samples"
  shows "s_positions (base09_replay (base09_restart
            (s_positions (base09_replay base09_init samples) ! k)) (drop k samples))
         = drop k (s_positions (base09_replay base09_init samples))"
proof -
  define pts where "pts = s_positions (base09_replay base09_init samples)"
  define p where "p = pts ! k"
  have len: "length pts = length samples"
    by (simp add: pts_def replay_length base09_init_def)
  have "map (\<lambda>p. (raw1 p, raw2 p)) pts = samples"
    using replay_raws[of base09_init samples] by (simp add: pts_def base09_init_def)
  then have "map (\<lambda>p. (raw1 p, raw2 p)) pts ! k = samples ! k" by simp
  then have raw: "samples ! k = (raw1 p, raw2 p)" using k len by (simp add: p_def)
  have "drop k samples = (raw1 p, raw2 p) # drop (Suc k) samples"
    using Cons_nth_drop_Suc[OF k] raw by simp
  then have "base09_replay (base09_restart p) (drop k samples)
        = base09_replay ((base09_resume p)\<lparr>s_positions := [p]\<rparr>) (drop (Suc k) samples)"
    by (simp add: base09_replay_def sample_restart)
  then have "s_positions (base09_replay (base09_restart p) (drop k samples))
        = [p] @ s_positions (base09_replay (base09_resume p) (drop (Suc k) samples))"
    using replay_positions[of "(base09_resume p)\<lparr>s_positions := [p]\<rparr>" "drop (Suc k) samples"]
    by (simp add: base09_resume_def)
  also have "\<dots> = p # drop (Suc k) pts"
    using replay_tail[OF k] by (simp add: p_def pts_def)
  also have "\<dots> = drop k pts" using k len by (simp add: p_def Cons_nth_drop_Suc)
  finally show ?thesis by (simp add: p_def pts_def)
qed

lemma replay_first:
  "xs \<noteq> [] \<Longrightarrow> cumCoord1 (hd (s_positions (base09_replay base09_init xs))) = 0
             \<and> cumCoord2 (hd (s_positions (base09_replay base09_init xs))) = 0
             \<and> frame (hd (s_positions (base09_replay base09_init xs))) = 0"
proof (cases xs)
  case Nil
  assume "xs \<noteq> []" with Nil show ?thesis by simp
next
  case (Cons x ys)
  have "base09_replay base09_init xs = base09_replay (base09_sample base09_init x) ys"
    by (simp add: Cons base09_replay_def)
  then have "s_positions (base09_replay base09_init xs)
      = s_positions (base09_sample base09_init x)
        @ s_positions (base09_replay ((base09_sample base09_init x)\<lparr>s_positions := []\<rparr>) ys)"
    using replay_positions[of "base09_sample base09_init x" ys] by simp
  moreover have "s_positions (base09_sample base09_init x)
      = [\<lparr> frame = 0, cumCoord1 = 0, cumCoord2 = 0, raw1 = fst x, raw2 = snd x \<rparr>]"
    by (simp add: base09_sample_def base09_init_def Let_def)
  ultimately show ?thesis by simp
qed

text \<open>
  C6.  \<^verbatim>\<open>extractBase09Position\<close> is the accumulation \<open>base09_replay\<close> run from the initial
  state over the accepted samples.  For every sample sequence and every index \<open>k\<close>, replaying
  from sample \<open>k\<close> with that sample's raws as previous raws and its running totals gives the
  points from \<open>k\<close> on, and continuing after sample \<open>k\<close> gives the points after \<open>k\<close>, exactly
  as in the full replay.  The first point of every extracted path has both totals 0.
\<close>

theorem base09_prefix_restart:
  "extractBase09Position chunks pl = s_positions (base09_replay base09_init (base09_samples chunks pl))
   \<and> (\<forall>k < length samples.
        s_positions (base09_replay (base09_restart
            (s_positions (base09_replay base09_init samples) ! k)) (drop k samples))
         = drop k (s_positions (base09_replay base09_init samples))
      \<and> s_positions (base09_replay (base09_resume
            (s_positions (base09_replay base09_init samples) ! k)) (drop (Suc k) samples))
         = drop (Suc k) (s_positions (base09_replay base09_init samples)))
   \<and> (extractBase09Position chunks pl \<noteq> [] \<longrightarrow>
        cumCoord1 (hd (extractBase09Position chunks pl)) = 0
      \<and> cumCoord2 (hd (extractBase09Position chunks pl)) = 0)"
proof (intro conjI allI impI)
  show e: "extractBase09Position chunks pl
          = s_positions (base09_replay base09_init (base09_samples chunks pl))"
    by (rule extract_eq_replay)
  assume ne: "extractBase09Position chunks pl \<noteq> []"
  then have "base09_samples chunks pl \<noteq> []"
    unfolding e by (auto simp: base09_replay_def base09_init_def)
  from replay_first[OF this]
  show "cumCoord1 (hd (extractBase09Position chunks pl)) = 0"
       "cumCoord2 (hd (extractBase09Position chunks pl)) = 0"
    unfolding e by simp_all
next
  fix k assume "k < length samples"
  then show "s_positions (base09_replay (base09_restart
            (s_positions (base09_replay base09_init samples) ! k)) (drop k samples))
         = drop k (s_positions (base09_replay base09_init samples))"
    by (rule replay_from)
next
  fix k assume "k < length samples"
  then show "s_positions (base09_replay (base09_resume
            (s_positions (base09_replay base09_init samples) ! k)) (drop (Suc k) samples))
         = drop (Suc k) (s_positions (base09_replay base09_init samples))"
    by (rule replay_tail)
qed

text \<open>
  C1.  When the previous accepted sample has raw coord1 65530 and the next one has 5, the
  corrected delta is 11 (the raw difference \<open>-65525\<close> plus 65536, inside the discontinuity
  threshold), and the running total and the emitted point carry the old total plus 11.
\<close>

theorem base09_wrap_delta:
  assumes "s_prevC1 st = Some 65530" "s_prevC2 st = Some p2"
  shows "base09_delta1 65530 5 = 11
       \<and> s_cumCoord1 (base09_sample st (5, c2)) = s_cumCoord1 st + 11
       \<and> cumCoord1 (last (s_positions (base09_sample st (5, c2)))) = s_cumCoord1 st + 11"
  using assms
  by (simp add: base09_sample_def base09_delta1_def DISCONTINUITY_THRESHOLD_def Let_def)


theorem base09_wrap_delta_witness:
  "base09_delta1 65530 5 = 11
   \<and> s_cumCoord1 (base09_sample (base09_sample base09_init (65530, 10)) (5, 10)) = 11
   \<and> cumCoord1 (last (s_positions (base09_sample (base09_sample base09_init (65530, 10)) (5, 10)))) = 11"
proof -
  define st where "st = base09_sample base09_init (65530, 10)"
  have h: "s_prevC1 st = Some 65530" "s_prevC2 st = Some 10" "s_cumCoord1 st = 0"
    by (simp_all add: st_def base09_sample_def base09_init_def Let_def)
  from base09_wrap_delta[OF h(1,2), of 10] h(3)
  show ?thesis unfolding st_def by simp
qed

lemma sample_chunk:
  "base09_samples [[0xa0, 0x7b, 0x42, 0, 1, 0x40, 0x09, 0, 5, 0, 0x41, 0x02, 0x03, 0x04, 0, 0, 0, 0, 0, 0]] 0
     = [(16642, 772)]"
  by code_simp

text \<open>Samples decoded from a buffer have the high nibble 4 in their first data byte.\<close>

lemma decode_range:
  assumes "base09_decode chunk player pos = Some (c1, c2)"
  shows "16384 \<le> c1 \<and> c1 < 20480"
proof -
  define b0 where "b0 = u8at chunk (pos + 10)"
  define b1 where "b1 = u8at chunk (pos + 11)"
  have "b1 < 256" unfolding b1_def u8at_def using unsigned_less[of "chunk ! (pos + 11)", where 'a = nat] by simp
  moreover from assms have "drop_bit 4 b0 = 4" "c1 = int (b0 * 256 + b1)"
    by (auto simp: base09_decode_def Let_def b0_def b1_def split: if_splits)
  moreover then have "b0 div 16 = 4" by (simp add: drop_bit_eq_div)
  then have "64 \<le> b0 \<and> b0 < 80" by arith
  ultimately show ?thesis by simp
qed

theorem base09_prefix_restart_witness:
  "s_positions (base09_replay (base09_restart
       (s_positions (base09_replay base09_init [(20000, 10), (16390, 4090), (20470, 5)]) ! 1))
       (drop 1 [(20000, 10), (16390, 4090), (20470, 5)]))
     = drop 1 (s_positions (base09_replay base09_init [(20000, 10), (16390, 4090), (20470, 5)]))
   \<and> extractBase09Position
        [[0xa0, 0x7b, 0x42, 0, 1, 0x40, 0x09, 0, 5, 0, 0x41, 0x02, 0x03, 0x04, 0, 0, 0, 0, 0, 0]] 0 \<noteq> []
   \<and> cumCoord1 (hd (extractBase09Position
        [[0xa0, 0x7b, 0x42, 0, 1, 0x40, 0x09, 0, 5, 0, 0x41, 0x02, 0x03, 0x04, 0, 0, 0, 0, 0, 0]] 0)) = 0"
proof -
  define S :: "(int \<times> int) list" where "S = [(20000, 10), (16390, 4090), (20470, 5)]"
  define C :: "byte list list" where
    "C = [[0xa0, 0x7b, 0x42, 0, 1, 0x40, 0x09, 0, 5, 0, 0x41, 0x02, 0x03, 0x04, 0, 0, 0, 0, 0, 0]]"
  note t = base09_prefix_restart[of C 0 S]
  have k: "1 < length S" by (simp add: S_def)
  have a: "s_positions (base09_replay (base09_restart
       (s_positions (base09_replay base09_init S) ! 1)) (drop 1 S))
     = drop 1 (s_positions (base09_replay base09_init S))"
    using t k by blast
  have "extractBase09Position C 0 = s_positions (base09_replay base09_init (base09_samples C 0))"
    using t by blast
  then have "length (extractBase09Position C 0) = 1"
    unfolding C_def sample_chunk by (simp add: replay_length base09_init_def)
  then have b: "extractBase09Position C 0 \<noteq> []" by auto
  then have c: "cumCoord1 (hd (extractBase09Position C 0)) = 0" using t by blast
  show ?thesis using a b c unfolding S_def C_def by simp
qed

section \<open>Properties of the direction decoder and the fire-event scanner\<close>

lemma aimVector_norm:
  "aimVector ob aim = (x, y, z) \<Longrightarrow> 1 / 3 \<le> x * x + y * y + z * z"
proof -
  assume v: "aimVector ob aim = (x, y, z)"
  define a where "a = real (drop_bit 8 aim AND 0xff) / 255"
  define b where "b = real (aim AND 0xff) / 255"
  define c where "c = max 0 (1 - a - b)"
  have nn: "0 \<le> a" "0 \<le> b" "0 \<le> c" "1 \<le> a + b + c"
    by (simp_all add: a_def b_def c_def)
  have "\<exists>sx sy sz. (sx = 1 \<or> sx = - 1) \<and> (sy = 1 \<or> sy = - 1) \<and> (sz = 1 \<or> sz = - 1)
          \<and> (x, y, z) = (sx * a, sy * b, sz * c)"
    unfolding v[symmetric] aimVector_def Let_def a_def b_def c_def by auto
  then have sq: "x * x = a * a" "y * y = b * b" "z * z = c * c"
    by auto
  have "0 \<le> (a - b)\<^sup>2 + (b - c)\<^sup>2 + (a - c)\<^sup>2" by simp
  then have "(a + b + c)\<^sup>2 \<le> 3 * (a * a + b * b + c * c)"
    by (simp add: power2_eq_square algebra_simps)
  moreover have "1 \<le> (a + b + c)\<^sup>2"
    using nn(4) by (metis one_le_power)
  ultimately show ?thesis unfolding sq by simp
qed

text \<open>
  C9.  Octant 0 with face code \<open>0xFF00\<close> decodes to \<open>(1, 0, 0)\<close>; and the normalisation step
  returns \<open>(0, 0, 1)\<close> for every vector of length below \<open>1e-10\<close>.
\<close>

theorem decodeOctahedralAim_example:
  "decodeOctahedralAim 0 0xFF00 = (1, 0, 0)
   \<and> (sqrt (x * x + y * y + z * z) < 1 / 10 ^ 10 \<longrightarrow> aimNormalize (x, y, z) = (0, 0, 1))"
  by (simp add: decodeOctahedralAim_def aimVector_def aimNormalize_def Let_def drop_bit_eq_div)

theorem decodeOctahedralAim_example_witness:
  "decodeOctahedralAim 0 0xFF00 = (1, 0, 0) \<and> aimNormalize (0, 0, 0) = (0, 0, 1)"
  using decodeOctahedralAim_example[of 0 0 0] by simp

subsection \<open>Fire events\<close>

lemma step_accept:
  "scanFireEvents_step data co st i =
     (if fireAccept data i
      then \<lparr> events = events st @ [fireEventAt data co i],
             weaponCounts = (weaponCounts st)
               (weaponName (fireEventAt data co i) \<mapsto>
                  (case weaponCounts st (weaponName (fireEventAt data co i)) of
                     None \<Rightarrow> 0 | Some n \<Rightarrow> n) + 1) \<rparr>
      else st)"
  by (auto simp: scanFireEvents_step_def fireAccept_def leadMatch_def fireValid_def Let_def)

lemma scan_foldl:
  "weaponCounts st = countOf (events st) \<Longrightarrow>
   events (foldl (scanFireEvents_step data co) st is)
     = events st @ map (fireEventAt data co) (filter (fireAccept data) is)
   \<and> weaponCounts (foldl (scanFireEvents_step data co) st is)
     = countOf (events (foldl (scanFireEvents_step data co) st is))"
proof (induction "is" arbitrary: st)
  case Nil
  then show ?case by simp
next
  case (Cons i "is")
  define st' where "st' = scanFireEvents_step data co st i"
  have "weaponCounts st' = countOf (events st')"
    unfolding st'_def step_accept using Cons.prems
    by (auto simp: countOf_def Let_def fun_eq_iff)
  from Cons.IH[OF this] show ?case
    by (simp add: st'_def[symmetric]) (simp add: st'_def step_accept)
qed

lemma scan_init:
  "weaponCounts \<lparr> events = [], weaponCounts = Map.empty \<rparr>
     = countOf (events \<lparr> events = [], weaponCounts = Map.empty \<rparr>)"
  by (simp add: countOf_def fun_eq_iff)

lemma scan_events:
  "events (scanFireEvents data co)
     = map (fireEventAt data co) (filter (fireAccept data) [0..<length data - 20])"
  unfolding scanFireEvents_def using scan_foldl[OF scan_init, THEN conjunct1, of data co] by simp

lemma scan_counts:
  "weaponCounts (scanFireEvents data co) = countOf (events (scanFireEvents data co))"
  unfolding scanFireEvents_def by (rule scan_foldl[OF scan_init, THEN conjunct2])

lemma fireEventAt_fields:
  "ev_offset (fireEventAt data co i) = i"
  "counter (fireEventAt data co i) = readShifted data (i + 4)"
  "slot (fireEventAt data co i) = readShifted data (i + 5)"
  "weaponId (fireEventAt data co i) = readShiftedHex data (i + 6) 8"
  by (simp_all add: fireEventAt_def Let_def)


lemma accept_upt:
  "filter (fireAccept data) [0..<length data - 20]
     = filter (\<lambda>i. leadMatch data i \<and> fireValid data i) [0..<length data - 20]"
  by (intro filter_cong) (auto simp: fireAccept_def)

text \<open>
  C3.  Every event that \<^verbatim>\<open>scanFireEvents\<close> emits sits at a lead-pattern match whose fire counter
  is a multiple of 4, whose slot byte is 1 or 3 and whose weapon identifier ends with
  \<^verbatim>\<open>42c9679f\<close>; an offset failing one of the three checks is the offset of no event; the
  events are exactly the accepted offsets in scan order; and the weapon counts are the
  numbers of emitted events per name, so a rejected candidate adds to no count.  The scan
  is a total function: a rejection only leaves the result unchanged.
\<close>

theorem scanFireEvents_rejects:
  "(\<forall>e \<in> set (events (scanFireEvents data co)).
       leadMatch data (ev_offset e)
     \<and> counter e mod 4 = 0 \<and> (slot e = 1 \<or> slot e = 3) \<and> endsWith (weaponId e) ''42c9679f''
     \<and> counter e = readShifted data (ev_offset e + 4)
     \<and> slot e = readShifted data (ev_offset e + 5)
     \<and> weaponId e = readShiftedHex data (ev_offset e + 6) 8)
   \<and> (\<forall>i. \<not> fireValid data i \<longrightarrow> i \<notin> ev_offset ` set (events (scanFireEvents data co)))
   \<and> map ev_offset (events (scanFireEvents data co))
        = filter (\<lambda>i. leadMatch data i \<and> fireValid data i) [0..<length data - 20]
   \<and> weaponCounts (scanFireEvents data co) = countOf (events (scanFireEvents data co))"
proof (intro conjI ballI allI impI)
  show offs: "map ev_offset (events (scanFireEvents data co))
        = filter (\<lambda>i. leadMatch data i \<and> fireValid data i) [0..<length data - 20]"
    unfolding scan_events accept_upt[symmetric]
    by (simp add: comp_def fireEventAt_fields)
  show "weaponCounts (scanFireEvents data co) = countOf (events (scanFireEvents data co))"
    by (rule scan_counts)
  {
    fix i assume nv: "\<not> fireValid data i"
    show "i \<notin> ev_offset ` set (events (scanFireEvents data co))"
    proof
      assume "i \<in> ev_offset ` set (events (scanFireEvents data co))"
      then have "i \<in> set (map ev_offset (events (scanFireEvents data co)))" by simp
      then show False unfolding offs using nv by simp
    qed
  }
  fix e assume "e \<in> set (events (scanFireEvents data co))"
  then obtain i where i: "fireAccept data i" "e = fireEventAt data co i"
    unfolding scan_events by auto
  then have v: "leadMatch data i" "fireValid data i" by (simp_all add: fireAccept_def)
  show "leadMatch data (ev_offset e)" using i v by (simp add: fireEventAt_fields)
  show "counter e mod 4 = 0" using i v by (simp add: fireEventAt_fields fireValid_def)
  show "slot e = 1 \<or> slot e = 3" using i v by (simp add: fireEventAt_fields fireValid_def)
  show "endsWith (weaponId e) ''42c9679f''"
    using i v by (simp add: fireEventAt_fields fireValid_def WEAPON_SUFFIX_def)
  show "counter e = readShifted data (ev_offset e + 4)" using i by (simp add: fireEventAt_fields)
  show "slot e = readShifted data (ev_offset e + 5)" using i by (simp add: fireEventAt_fields)
  show "weaponId e = readShiftedHex data (ev_offset e + 6) 8"
    using i by (simp add: fireEventAt_fields)
qed

lemma upt_small: "[0..<2] = [0, 1]" "[0..<8] = [0, 1, 2, 3, 4, 5, 6, 7]"
  by code_simp+

lemma sample_lead: "leadMatch (fireSample w) 0" "\<not> leadMatch (fireSample w) (Suc 0)"
  by (simp_all add: leadMatch_def shifted_def u8at_def fireSample_def)

lemma sample_fields:
  "readShifted (fireSample w) 4 = 4" "readShifted (fireSample w) 5 = 1"
  by (simp_all add: readShifted_def shifted_def u8at_def fireSample_def)

lemma sample_hex_good: "readShiftedHex (fireSample 0xf0) 6 8 = ''48c19d2d42c9679f''"
  unfolding readShiftedHex_def upt_small
  by (simp add: readShifted_def shifted_def u8at_def fireSample_def toHex2_def padStart2_def hexDigit_def)

lemma sample_hex_bad: "readShiftedHex (fireSample 0xe0) 6 8 = ''48c19d2d42c9679e''"
  unfolding readShiftedHex_def upt_small
  by (simp add: readShifted_def shifted_def u8at_def fireSample_def toHex2_def padStart2_def hexDigit_def)

lemma sample_valid: "fireValid (fireSample 0xf0) 0" "\<not> fireValid (fireSample 0xe0) 0"
  by (simp_all add: fireValid_def sample_fields sample_hex_good sample_hex_bad endsWith_def WEAPON_SUFFIX_def)

lemma sample_filter:
  "filter (\<lambda>i. leadMatch (fireSample 0xf0) i \<and> fireValid (fireSample 0xf0) i)
     [0..<length (fireSample 0xf0) - 20] = [0]"
proof -
  have "length (fireSample 0xf0) - 20 = 2" by (simp add: fireSample_def)
  then show ?thesis by (simp add: upt_small sample_lead sample_valid)
qed

theorem scanFireEvents_rejects_witness:
  "map ev_offset (events (scanFireEvents (fireSample 0xf0) [0])) = [0]
   \<and> leadMatch (fireSample 0xe0) 0
   \<and> readShifted (fireSample 0xe0) 4 mod 4 = 0
   \<and> readShifted (fireSample 0xe0) 5 = 1
   \<and> 0 \<notin> ev_offset ` set (events (scanFireEvents (fireSample 0xe0) [0]))"
proof -
  have a: "map ev_offset (events (scanFireEvents (fireSample 0xf0) [0])) = [0]"
    using scanFireEvents_rejects[of "fireSample 0xf0" "[0]"] sample_filter by simp
  have c: "0 \<notin> ev_offset ` set (events (scanFireEvents (fireSample 0xe0) [0]))"
    using scanFireEvents_rejects[of "fireSample 0xe0" "[0]"] sample_valid(2) by blast
  show ?thesis using a c sample_lead(1) sample_fields by simp
qed

section \<open>Properties of the document decoder\<close>





subsection \<open>Byte lists\<close>

lemma readValue_list:
  "ty = 11 \<or> ty = 12 \<Longrightarrow> readValue (Suc n) buf ty st = readList (readValue n buf) buf (ty = 12) st"
  by (auto simp: readValue_with_def)

lemma readList_bytes:
  assumes hd: "listHeader buf pos = (elemType, cnt, pos2)"
      and el: "elemType = 3 \<or> elemType = 14"
  shows "readList rv buf isSet (pos, bl) =
     (if 0 < cnt \<and> cnt < 1000 \<and> list_all isTextByte (take cnt (drop pos2 buf))
      then Ok (VList (BondList isSet (TypeName elemType) cnt None None
                        (Some (textOf (take cnt (drop pos2 buf))))), (pos2 + cnt, bl))
      else Ok (VList (BondList isSet (TypeName elemType) cnt None (Some (length bl)) None),
               (pos2 + cnt, bl @ [\<lparr> blob_index = length bl, blob_length = cnt,
                                    blob_data = take cnt (drop pos2 buf) \<rparr>])))"
  using el by (auto simp: readList_def hd bytes_def Let_def)

lemma readList_items:
  assumes hd: "listHeader buf pos = (elemType, cnt, pos2)"
      and el: "\<not> (elemType = 3 \<or> elemType = 14)"
      and r: "readList rv buf isSet (pos, bl) = Ok (VList l, st')"
  shows "l_blobRef l = None \<and> l_data l = None \<and> l_items l \<noteq> None"
  using el r by (auto simp: readList_def hd Let_def split: outcome.splits)

text \<open>
  C5, as amended.  For a list or set whose element type is uint8 or int8, the payload is
  exposed as text exactly when the declared count is between 1 and 999 and every payload
  byte is printable ASCII, tab, line feed, carriage return or NUL; otherwise it is appended
  once to the blob table and the list carries the index of that entry.  A byte list never
  has items; a list of any other element type has items and neither text nor blob
  reference.
\<close>

theorem readList_byte_payload:
  assumes ty: "ty = 11 \<or> ty = 12"
      and hd: "listHeader buf pos = (elemType, cnt, pos2)"
  shows "(elemType = 3 \<or> elemType = 14 \<longrightarrow>
          (\<exists>l bl'. readValue (Suc n) buf ty (pos, bl) = Ok (VList l, (pos2 + cnt, bl'))
             \<and> l_isSet l = (ty = 12) \<and> l_count l = cnt \<and> l_items l = None
             \<and> (l_data l \<noteq> None \<longleftrightarrow>
                  0 < cnt \<and> cnt < 1000 \<and> list_all isTextByte (take cnt (drop pos2 buf)))
             \<and> (l_data l \<noteq> None \<longrightarrow>
                  l_data l = Some (textOf (take cnt (drop pos2 buf)))
                  \<and> l_blobRef l = None \<and> bl' = bl)
             \<and> (l_data l = None \<longrightarrow>
                  l_blobRef l = Some (length bl)
                  \<and> bl' = bl @ [\<lparr> blob_index = length bl, blob_length = cnt,
                                   blob_data = take cnt (drop pos2 buf) \<rparr>])))
       \<and> (\<not> (elemType = 3 \<or> elemType = 14) \<longrightarrow>
          (\<forall>l st'. readValue (Suc n) buf ty (pos, bl) = Ok (VList l, st') \<longrightarrow>
             l_blobRef l = None \<and> l_data l = None \<and> l_items l \<noteq> None))"
proof (intro conjI impI allI)
  assume el: "elemType = 3 \<or> elemType = 14"
  show "\<exists>l bl'. readValue (Suc n) buf ty (pos, bl) = Ok (VList l, (pos2 + cnt, bl'))
             \<and> l_isSet l = (ty = 12) \<and> l_count l = cnt \<and> l_items l = None
             \<and> (l_data l \<noteq> None \<longleftrightarrow>
                  0 < cnt \<and> cnt < 1000 \<and> list_all isTextByte (take cnt (drop pos2 buf)))
             \<and> (l_data l \<noteq> None \<longrightarrow>
                  l_data l = Some (textOf (take cnt (drop pos2 buf)))
                  \<and> l_blobRef l = None \<and> bl' = bl)
             \<and> (l_data l = None \<longrightarrow>
                  l_blobRef l = Some (length bl)
                  \<and> bl' = bl @ [\<lparr> blob_index = length bl, blob_length = cnt,
                                   blob_data = take cnt (drop pos2 buf) \<rparr>])"
    unfolding readValue_list[OF ty] readList_bytes[OF hd el]
    by (cases "0 < cnt \<and> cnt < 1000 \<and> list_all isTextByte (take cnt (drop pos2 buf))") simp_all
next
  fix l st'
  assume "\<not> (elemType = 3 \<or> elemType = 14)"
     and "readValue (Suc n) buf ty (pos, bl) = Ok (VList l, st')"
  then show "l_blobRef l = None" "l_data l = None" "l_items l \<noteq> None"
    using readList_items[OF hd, of "readValue n buf" "ty = 12" bl l st']
    unfolding readValue_list[OF ty] by simp_all
qed

lemma header_text: "listHeader [0x63, 0x48, 0x69] 0 = (3, 2, 1)"
  by (simp add: listHeader_def u8_def)

lemma header_blob: "listHeader [0x43, 0xff] 0 = (3, 1, 1)"
  by (simp add: listHeader_def u8_def)

lemma header_long: "listHeader ([0x03, 0xe8, 0x07] @ replicate 1000 0x41) 0 = (3, 1000, 3)"
  by (simp add: listHeader_def u8_def leb128u_def)

lemma header_bool: "listHeader [0x22] 0 = (2, 0, 1)"
  by (simp add: listHeader_def u8_def)


lemma text_A: "list_all isTextByte (replicate 1000 0x41)"
  by (simp add: list_all_iff isTextByte_def)

text \<open>
  C5, as stated, fails: a uint8 list of 1000 bytes \<open>0x41\<close> has only printable bytes, yet it is
  stored as blob 0 and the list carries the reference, not text.
\<close>

theorem readList_text_counterexample:
  "list_all isTextByte (replicate 1000 0x41)
   \<and> readValue (Suc 0) ([0x03, 0xe8, 0x07] @ replicate 1000 0x41) 11 (0, [])
       = Ok (VList (BondList False ''uint8'' 1000 None (Some 0) None),
             (1003, [\<lparr> blob_index = 0, blob_length = 1000, blob_data = replicate 1000 0x41 \<rparr>]))"
proof
  show "list_all isTextByte (replicate 1000 0x41)" by (rule text_A)
  have ty: "(11::nat) = 11 \<or> (11::nat) = 12" by simp
  have el: "(3::nat) = 3 \<or> (3::nat) = 14" by simp
  show "readValue (Suc 0) ([0x03, 0xe8, 0x07] @ replicate 1000 0x41) 11 (0, [])
       = Ok (VList (BondList False ''uint8'' 1000 None (Some 0) None),
             (1003, [\<lparr> blob_index = 0, blob_length = 1000, blob_data = replicate 1000 0x41 \<rparr>]))"
    unfolding readValue_list[OF ty] readList_bytes[OF header_long el]
    by (simp add: TypeName_def)
qed

theorem readList_byte_payload_witness:
  "(\<exists>l. readValue (Suc 0) [0x63, 0x48, 0x69] 11 (0, []) = Ok (VList l, (3, []))
        \<and> l_data l = Some ''Hi'' \<and> l_blobRef l = None \<and> l_items l = None)
   \<and> (\<exists>l. readValue (Suc 0) [0x43, 0xff] 12 (0, [])
              = Ok (VList l, (2, [\<lparr> blob_index = 0, blob_length = 1, blob_data = [0xff] \<rparr>]))
        \<and> l_data l = None \<and> l_blobRef l = Some 0 \<and> l_items l = None)
   \<and> (\<exists>l st'. readValue (Suc 0) [0x22] 11 (0, []) = Ok (VList l, st')
        \<and> l_data l = None \<and> l_blobRef l = None \<and> l_items l = Some [])"
proof (intro conjI)
  have t: "list_all isTextByte (take 2 (drop 1 [0x63, 0x48, 0x69]))"
    by (simp add: isTextByte_def)
  have x: "textOf (take 2 (drop 1 [0x63, 0x48, 0x69])) = ''Hi''"
    by (simp add: textOf_def char_of_def bit_0)
  from readList_byte_payload[of 11, OF _ header_text, where n = 0 and bl = "[]"]
  obtain l bl' where l: "readValue (Suc 0) [0x63, 0x48, 0x69] 11 (0, []) = Ok (VList l, (1 + 2, bl'))"
      "l_items l = None"
      "l_data l \<noteq> None \<longleftrightarrow> 0 < (2::nat) \<and> (2::nat) < 1000
          \<and> list_all isTextByte (take 2 (drop 1 [0x63, 0x48, 0x69]))"
      "l_data l \<noteq> None \<longrightarrow> l_data l = Some (textOf (take 2 (drop 1 [0x63, 0x48, 0x69])))
          \<and> l_blobRef l = None \<and> bl' = []"
    by auto
  from l(3) t have "l_data l \<noteq> None" by simp
  with l(4) x have "l_data l = Some ''Hi''" "l_blobRef l = None" "bl' = []" by simp_all
  with l(1,2) show "\<exists>l. readValue (Suc 0) [0x63, 0x48, 0x69] 11 (0, []) = Ok (VList l, (3, []))
        \<and> l_data l = Some ''Hi'' \<and> l_blobRef l = None \<and> l_items l = None"
    by auto
next
  have t: "\<not> list_all isTextByte (take 1 (drop 1 [0x43, 0xff]))"
    by (simp add: isTextByte_def)
  from readList_byte_payload[of 12, OF _ header_blob, where n = 0 and bl = "[]"]
  obtain l bl' where l: "readValue (Suc 0) [0x43, 0xff] 12 (0, []) = Ok (VList l, (1 + 1, bl'))"
      "l_items l = None"
      "l_data l \<noteq> None \<longleftrightarrow> 0 < (1::nat) \<and> (1::nat) < 1000
          \<and> list_all isTextByte (take 1 (drop 1 [0x43, 0xff]))"
      "l_data l = None \<longrightarrow> l_blobRef l = Some (length ([] :: Blob list))
          \<and> bl' = [] @ [\<lparr> blob_index = length ([] :: Blob list), blob_length = 1,
                           blob_data = take 1 (drop 1 [0x43, 0xff]) \<rparr>]"
    by auto
  from l(3) t have d: "l_data l = None" by simp
  with l(4) have "l_blobRef l = Some 0"
      "bl' = [\<lparr> blob_index = 0, blob_length = 1, blob_data = [0xff] \<rparr>]" by simp_all
  with l(1,2) d show "\<exists>l. readValue (Suc 0) [0x43, 0xff] 12 (0, [])
              = Ok (VList l, (2, [\<lparr> blob_index = 0, blob_length = 1, blob_data = [0xff] \<rparr>]))
        \<and> l_data l = None \<and> l_blobRef l = Some 0 \<and> l_items l = None"
    by auto
next
  have e: "readValue (Suc 0) [0x22] 11 (0, [])
      = Ok (VList (BondList False ''bool'' 0 (Some []) None None), (1, []))"
    by (simp add: readValue_with_def readList_def header_bool TypeName_def)
  from readList_byte_payload[of 11, OF _ header_bool, where n = 0 and bl = "[]"] e
  have "l_blobRef (BondList False ''bool'' 0 (Some []) None None) = None
      \<and> l_data (BondList False ''bool'' 0 (Some []) None None) = None
      \<and> l_items (BondList False ''bool'' 0 (Some []) None None) \<noteq> None"
    by auto
  with e show "\<exists>l st'. readValue (Suc 0) [0x22] 11 (0, []) = Ok (VList l, st')
        \<and> l_data l = None \<and> l_blobRef l = None \<and> l_items l = Some []"
    by auto
qed

subsection \<open>Compressed trailer\<close>













end
